theory Spec2Isabelle
  imports Complex_Main "HOL-Library.Multiset"
begin

section \<open>Data model\<close>

text \<open>
  Modelled from the spec: the declarations of \<^verbatim>\<open>types.ts\<close> (the status enum and the
  record types) are imported by every source file but are not part of the sources; the
  constructors and fields below are the ones the sources use, with the state names of
  the spec's status state machine.  A JavaScript string is a \<^typ>\<open>string\<close>; an optional
  field is an \<^typ>\<open>'a option\<close>.
\<close>

datatype TaskStatus =
    PENDING | GATHERING | GATHERED | PROCESSING | GENERATING_IMAGE
  | COMPOSING | UPLOADING | SENDING_WEBHOOK | DONE | ERROR

record TaskResult =
  r_headline :: string
  r_imageUrl :: string
  r_caption :: string
  r_sourceUrl :: string
  r_sourceName :: string

record BatchTask =
  task_id :: string
  categoryName :: string
  status :: TaskStatus
  error :: "string option"
  result :: "TaskResult option"

text \<open>
  \<^verbatim>\<open>Partial<BatchTask>\<close>: every key may be absent.  The object spread
  \<^verbatim>\<open>{ ...task, ...updates }\<close> keeps a field of \<^verbatim>\<open>task\<close> unless \<^verbatim>\<open>updates\<close> has that key.
\<close>

record TaskUpdates =
  u_id :: "string option"
  u_categoryName :: "string option"
  u_status :: "TaskStatus option"
  u_error :: "string option"
  u_result :: "TaskResult option"

definition no_updates :: TaskUpdates where
  "no_updates = \<lparr>u_id = None, u_categoryName = None, u_status = None,
                  u_error = None, u_result = None\<rparr>"

definition spread :: "BatchTask \<Rightarrow> TaskUpdates \<Rightarrow> BatchTask" where
  "spread t u =
     \<lparr>task_id = (case u_id u of None \<Rightarrow> task_id t | Some v \<Rightarrow> v),
      categoryName = (case u_categoryName u of None \<Rightarrow> categoryName t | Some v \<Rightarrow> v),
      status = (case u_status u of None \<Rightarrow> status t | Some v \<Rightarrow> v),
      error = (case u_error u of None \<Rightarrow> error t | Some v \<Rightarrow> Some v),
      result = (case u_result u of None \<Rightarrow> result t | Some v \<Rightarrow> Some v)\<rparr>"

record Category =
  cat_name :: string
  apiValue :: string

record NewsDataArticle =
  link :: string
  pubDate :: "string option"
  image_url :: "string option"

record NewsAnalysis =
  a_headline :: string
  a_highlightPhrases :: "string list"
  a_caption :: string
  a_imagePrompt :: string
  a_sourceName :: string

record CollectedData =
  c_taskId :: string
  c_analysis :: NewsAnalysis
  c_article :: NewsDataArticle

text \<open>
  A thrown value: an \<^verbatim>\<open>Error\<close> object with its message, or anything else.  Both catch
  blocks of the orchestrator compute
  \<^verbatim>\<open>err instanceof Error ? err.message : "An unknown error occurred."\<close>.
\<close>

datatype thrown = Error string | NonError

fun errorMessage :: "thrown \<Rightarrow> string" where
  "errorMessage (Error m) = m"
| "errorMessage NonError = ''An unknown error occurred.''"

section \<open>The server orchestrator (\<^verbatim>\<open>handler\<close>)\<close>

subsection \<open>State and the update primitive\<close>

text \<open>
  The closure variables of \<^verbatim>\<open>start(controller)\<close>: the task array, the records enqueued on
  the response stream so far (each is one line \<^verbatim>\<open>JSON.stringify(task) + '\n'\<close>, kept here as
  the snapshot that was serialised), the used-link set and the collected list.
\<close>

record run_state =
  tasks :: "BatchTask list"
  stream :: "BatchTask list"
  usedArticleLinks :: "string set"
  collectedData :: "CollectedData list"

text \<open>\<^verbatim>\<open>Array.prototype.findIndex\<close>; \<^verbatim>\<open>-1\<close> is \<^term>\<open>None\<close>.\<close>

fun findIndex :: "('a \<Rightarrow> bool) \<Rightarrow> 'a list \<Rightarrow> nat option" where
  "findIndex p [] = None"
| "findIndex p (x # xs) =
     (if p x then Some 0 else (case findIndex p xs of None \<Rightarrow> None | Some i \<Rightarrow> Some (Suc i)))"

definition pushUpdate :: "BatchTask \<Rightarrow> run_state \<Rightarrow> run_state" where
  "pushUpdate task s = s\<lparr>stream := stream s @ [task]\<rparr>"

definition updateTask :: "string \<Rightarrow> TaskUpdates \<Rightarrow> run_state \<Rightarrow> run_state" where
  "updateTask tid updates s =
     (case findIndex (\<lambda>t. task_id t = tid) (tasks s) of
        None \<Rightarrow> s
      | Some taskIndex \<Rightarrow>
          (let s' = s\<lparr>tasks := (tasks s)[taskIndex := spread (tasks s ! taskIndex) updates]\<rparr>
           in pushUpdate (tasks s' ! taskIndex) s'))"

section \<open>The image composition engine (\<^verbatim>\<open>utils/canvas.ts\<close>)\<close>

subsection \<open>Strings\<close>

text \<open>
  The string built-ins the sources call.  A string is a list of code units.
  \<^verbatim>\<open>String.prototype.toLowerCase\<close> is not modelled: it is a parameter \<open>toLowerCase\<close> of
  every function that calls it, and every theorem holds for every function in its place.

  \<^verbatim>\<open>s.split(sep)\<close> with a one-character separator: the pieces between the separators, at
  least one piece (the empty string splits into one empty piece).
\<close>

fun split_on :: "char \<Rightarrow> string \<Rightarrow> string list" where
  "split_on sep [] = [[]]"
| "split_on sep (c # cs) =
     (if c = sep then [] # split_on sep cs
      else (case split_on sep cs of [] \<Rightarrow> [[c]] | w # ws \<Rightarrow> (c # w) # ws))"

text \<open>
  \<^verbatim>\<open>s.indexOf(searchString, position)\<close>: the search starts at \<^verbatim>\<open>min(position, s.length)\<close> and
  returns the least index at which \<^verbatim>\<open>searchString\<close> occurs, \<^verbatim>\<open>-1\<close> (here \<^term>\<open>None\<close>) when
  there is none.  The empty string occurs at every index up to and including the length.
\<close>

definition indexOf :: "string \<Rightarrow> string \<Rightarrow> nat \<Rightarrow> nat option" where
  "indexOf s searchString position =
     List.find (\<lambda>i. take (length searchString) (drop i s) = searchString)
       [min position (length s) ..< Suc (length s)]"


subsection \<open>\<^verbatim>\<open>calculateLines\<close>\<close>

text \<open>
  The rendering context enters through \<^verbatim>\<open>context.measureText(t).width\<close> under the font
  that is current at the call: the parameter \<open>measureText\<close>.  Widths are real numbers.
  The body of the \<^verbatim>\<open>for\<close> loop is \<open>wrapStep\<close>, on the pair of \<^verbatim>\<open>lines\<close> and
  \<^verbatim>\<open>currentLine\<close>.
\<close>

definition wrapStep ::
    "(string \<Rightarrow> real) \<Rightarrow> real \<Rightarrow> string list \<times> string \<Rightarrow> string \<Rightarrow> string list \<times> string" where
  "wrapStep measureText maxWidth st word =
     (let lines = fst st; currentLine = snd st;
          testLine = (if length currentLine > 0 then currentLine @ '' '' @ word else word)
      in if measureText testLine > maxWidth \<and> length currentLine > 0
         then (lines @ [currentLine], word)
         else (lines, testLine))"

definition calculateLines :: "(string \<Rightarrow> real) \<Rightarrow> string \<Rightarrow> real \<Rightarrow> string list" where
  "calculateLines measureText text maxWidth =
     (let st = foldl (wrapStep measureText maxWidth) ([], []) (split_on CHR '' '' text)
      in fst st @ [snd st])"

subsection \<open>The font-fitting loop of \<^verbatim>\<open>composeImage\<close>\<close>

text \<open>
  The constants of \<^verbatim>\<open>composeImage\<close>.  \<^verbatim>\<open>size * 0.3\<close> is 324 in double arithmetic as well, and
  a product \<^verbatim>\<open>lines.length * lineHeight\<close> differs from 224 by more than 1 for every font
  size the loop can take, so the comparison of the loop reads the same over the reals.
\<close>

definition canvasSize :: real where "canvasSize = 1080"
definition imageTop :: real where "imageTop = canvasSize * 0.3"
definition textTopMargin :: real where "textTopMargin = 60"
definition textSideMargin :: real where "textSideMargin = 60"
definition maxTextHeight :: real where "maxTextHeight = imageTop - textTopMargin - 40"
definition maxWidth :: real where "maxWidth = canvasSize - textSideMargin * 2"

text \<open>
  The variables the loop writes: \<^verbatim>\<open>fontSize\<close>, the pixel size of \<^verbatim>\<open>ctx.font\<close>, and
  \<^verbatim>\<open>lineHeight\<close> and \<^verbatim>\<open>lines\<close>, which are declared without a value (\<^term>\<open>None\<close>).  The
  headline is drawn afterwards with \<^verbatim>\<open>ctx.font\<close>, \<^verbatim>\<open>lines\<close> and \<^verbatim>\<open>lineHeight\<close> as the loop
  left them; \<^verbatim>\<open>fontSize\<close> is not read again.
\<close>

record fit_state =
  v_fontSize :: int
  ctx_font :: int
  v_lineHeight :: "real option"
  v_lines :: "string list option"

text \<open>\<open>measureText px t\<close> is the width of \<open>t\<close> under \<^verbatim>\<open>bold ${px}px Poppins\<close>.\<close>

function fitLoop :: "(int \<Rightarrow> string \<Rightarrow> real) \<Rightarrow> string \<Rightarrow> fit_state \<Rightarrow> fit_state" where
  "fitLoop measureText headline s =
     (if v_fontSize s > 20 then
        (let s1 = s\<lparr>v_lineHeight := Some (real_of_int (v_fontSize s) * 1.2), ctx_font := v_fontSize s\<rparr>;
             s2 = s1\<lparr>v_lines := Some (calculateLines (measureText (ctx_font s1)) headline maxWidth)\<rparr>;
             currentHeight = real (length (the (v_lines s2))) * the (v_lineHeight s2)
         in if currentHeight \<le> maxTextHeight then s2
            else fitLoop measureText headline (s2\<lparr>v_fontSize := v_fontSize s2 - 4\<rparr>))
      else s)"
  by pat_completeness auto
termination
  by (relation "measure (\<lambda>(m, h, s). nat (v_fontSize s - 20))") auto

declare fitLoop.simps [simp del]

definition fitHeadline :: "(int \<Rightarrow> string \<Rightarrow> real) \<Rightarrow> string \<Rightarrow> fit_state" where
  "fitHeadline measureText headline =
     fitLoop measureText headline
       \<lparr>v_fontSize = 72, ctx_font = 72, v_lineHeight = None, v_lines = None\<rparr>"

text \<open>The test of the loop at pixel size \<open>px\<close>: the wrapped headline fits the text box.\<close>

definition fits :: "(int \<Rightarrow> string \<Rightarrow> real) \<Rightarrow> string \<Rightarrow> int \<Rightarrow> bool" where
  "fits measureText headline px \<longleftrightarrow>
     real (length (calculateLines (measureText px) headline maxWidth)) * (real_of_int px * 1.2)
       \<le> maxTextHeight"

subsection \<open>\<^verbatim>\<open>drawHeadlineWithHighlights\<close>\<close>







subsection \<open>The highlight layer as the specification words it\<close>




section \<open>The streaming client (\<^verbatim>\<open>App\<close>, reading \<^verbatim>\<open>/api/automate\<close>)\<close>

text \<open>
  The React state the reader writes (\<^verbatim>\<open>tasks\<close>, \<^verbatim>\<open>completedCount\<close>) and the local
  \<^verbatim>\<open>buffer\<close> of \<^verbatim>\<open>handleStartAutomation\<close>.  State updaters run in the order they are queued,
  each once.
\<close>

record client_state =
  c_tasks :: "BatchTask list"
  completedCount :: nat
  buffer :: string

text \<open>
  The updater passed to \<^verbatim>\<open>setTasks\<close>.  The flag \<^verbatim>\<open>alreadyDone\<close> is raised inside the \<^verbatim>\<open>map\<close>
  callback by a task that carries the id of the update and is \<^verbatim>\<open>DONE\<close>; the same callback
  replaces every task that carries the id by the update.
\<close>

definition applyUpdate :: "BatchTask \<Rightarrow> client_state \<Rightarrow> client_state" where
  "applyUpdate update s =
     (let prevTasks = c_tasks s;
          alreadyDone = list_ex (\<lambda>t. task_id t = task_id update \<and> status t = DONE) prevTasks;
          newTasks = map (\<lambda>t. if task_id t = task_id update then update else t) prevTasks
      in s\<lparr>c_tasks := newTasks,
           completedCount :=
             (if status update = DONE \<and> \<not> alreadyDone then completedCount s + 1
              else completedCount s)\<rparr>)"

text \<open>
  \<^verbatim>\<open>line.trim() === ''\<close>: the line holds white space only (tab, line feed, vertical tab,
  form feed, carriage return and space on the ASCII range).
\<close>

definition isWhiteSpace :: "char \<Rightarrow> bool" where
  "isWhiteSpace c \<longleftrightarrow> (of_char c :: nat) \<in> {9, 10, 11, 12, 13, 32}"

definition isBlank :: "string \<Rightarrow> bool" where
  "isBlank line \<longleftrightarrow> list_all isWhiteSpace line"

text \<open>
  The body of \<^verbatim>\<open>for (const line of lines)\<close>.  \<^verbatim>\<open>JSON.parse\<close> is the parameter \<open>parse\<close>;
  \<^term>\<open>None\<close> is the \<^verbatim>\<open>SyntaxError\<close> it throws, which the \<^verbatim>\<open>catch\<close> inside the loop logs.
\<close>

definition processLine :: "(string \<Rightarrow> BatchTask option) \<Rightarrow> client_state \<Rightarrow> string \<Rightarrow> client_state" where
  "processLine parse s line =
     (if isBlank line then s
      else (case parse line of
              None \<Rightarrow> s
            | Some update \<Rightarrow> applyUpdate update s))"

text \<open>
  One turn of \<^verbatim>\<open>while (true)\<close> for a chunk that \<^verbatim>\<open>reader.read()\<close> delivered, as the text the
  streaming decoder made of it.  \<^verbatim>\<open>lines.pop() || ''\<close> is the last piece; \<^verbatim>\<open>split\<close> returns
  at least one.
\<close>

definition newline :: char where
  "newline = CHR 0x0A"

definition readChunk :: "(string \<Rightarrow> BatchTask option) \<Rightarrow> client_state \<Rightarrow> string \<Rightarrow> client_state" where
  "readChunk parse s chunk =
     (let buf = buffer s @ chunk;
          pieces = split_on newline buf;
          lines = butlast pieces;
          s' = s\<lparr>buffer := (if pieces = [] then [] else last pieces)\<rparr>
      in foldl (processLine parse) s' lines)"

text \<open>The loop over the chunks of a stream that ends (\<^verbatim>\<open>done\<close>) after finitely many.\<close>

definition readStream :: "(string \<Rightarrow> BatchTask option) \<Rightarrow> client_state \<Rightarrow> string list \<Rightarrow> client_state" where
  "readStream parse s chunks = foldl (readChunk parse) s chunks"

section \<open>The trending merge (\<^verbatim>\<open>handleStartAutomation\<close> of the in-browser orchestrator)\<close>

text \<open>
  \<^verbatim>\<open>new Map(entries)\<close> sets the entries one after the other.  A \<^verbatim>\<open>Map\<close> keeps its keys in
  the order of their first insertion; setting a key that is present replaces the value
  and keeps the position.  The map is the list of its entries in iteration order.
\<close>

fun mapSet :: "'k \<Rightarrow> 'v \<Rightarrow> ('k \<times> 'v) list \<Rightarrow> ('k \<times> 'v) list" where
  "mapSet k v [] = [(k, v)]"
| "mapSet k v ((k', v') # m) = (if k' = k then (k, v) # m else (k', v') # mapSet k v m)"

definition newMap :: "('k \<times> 'v) list \<Rightarrow> ('k \<times> 'v) list" where
  "newMap entries = foldl (\<lambda>m e. mapSet (fst e) (snd e) m) [] entries"

definition mapValues :: "('k \<times> 'v) list \<Rightarrow> 'v list" where
  "mapValues m = map snd m"

definition uniqueArticles :: "NewsDataArticle list \<Rightarrow> NewsDataArticle list" where
  "uniqueArticles articlesFromAllCategories =
     mapValues (newMap (map (\<lambda>article. (link article, article)) articlesFromAllCategories))"

text \<open>
  The compare function of the sort.  \<^verbatim>\<open>!a.pubDate\<close> holds for a missing and for an empty
  date.  \<^verbatim>\<open>new Date(d).getTime()\<close> is the parameter \<open>getTime\<close>, the milliseconds since the
  epoch, \<^term>\<open>None\<close> for \<^verbatim>\<open>NaN\<close> (a date that does not parse); a compare result of \<^verbatim>\<open>NaN\<close>
  counts as 0 in \<^verbatim>\<open>Array.prototype.sort\<close>.
\<close>

definition comparePubDate ::
    "(string \<Rightarrow> int option) \<Rightarrow> NewsDataArticle \<Rightarrow> NewsDataArticle \<Rightarrow> int" where
  "comparePubDate getTime a b =
     (case (pubDate a, pubDate b) of
        (Some da, Some db) \<Rightarrow>
          (if da = [] \<or> db = [] then 0
           else (case (getTime db, getTime da) of
                   (Some tb, Some ta) \<Rightarrow> tb - ta
                 | _ \<Rightarrow> 0))
      | _ \<Rightarrow> 0)"

text \<open>
  \<^verbatim>\<open>Array.prototype.sort(compareFn)\<close> belongs to the engine that runs the page, so it is a
  parameter \<open>arraySort\<close>.  What the language standard says of it is \<open>sortContract\<close>: for a
  compare function that orders the elements of the array consistently, the result holds
  the same elements, in ascending order of the compare function, elements that compare
  equal in the order they had.  A compare function that is the difference of an integer
  key is consistent.  When the compare function is not consistent the standard leaves
  the order to the implementation, and the contract says nothing.
\<close>

definition sortContract :: "(('a \<Rightarrow> 'a \<Rightarrow> int) \<Rightarrow> 'a list \<Rightarrow> 'a list) \<Rightarrow> bool" where
  "sortContract arraySort \<longleftrightarrow>
     (\<forall>compareFn key xs.
        (\<forall>a \<in> set xs. \<forall>b \<in> set xs. compareFn a b = key a - key b) \<longrightarrow>
          mset (arraySort compareFn xs) = mset xs \<and>
          sorted (map key (arraySort compareFn xs)) \<and>
          (\<forall>k. filter (\<lambda>a. key a = k) (arraySort compareFn xs) = filter (\<lambda>a. key a = k) xs))"

text \<open>
  The branch for the category \<^verbatim>\<open>top\<close>, from the lists that the fetches of the other
  categories returned (\<^verbatim>\<open>Promise.all\<close> keeps their order, \<^verbatim>\<open>flat\<close> concatenates them).
\<close>

definition trendingArticles ::
    "((NewsDataArticle \<Rightarrow> NewsDataArticle \<Rightarrow> int) \<Rightarrow> NewsDataArticle list \<Rightarrow> NewsDataArticle list)
       \<Rightarrow> (string \<Rightarrow> int option) \<Rightarrow> NewsDataArticle list list \<Rightarrow> NewsDataArticle list" where
  "trendingArticles arraySort getTime fetched =
     (let articlesFromAllCategories = concat fetched;
          sorted = arraySort (comparePubDate getTime) (uniqueArticles articlesFromAllCategories)
      in take 10 sorted)"

text \<open>An article has a publish date that parses, and the time it parses to.\<close>

definition hasTime :: "(string \<Rightarrow> int option) \<Rightarrow> NewsDataArticle \<Rightarrow> bool" where
  "hasTime getTime a \<longleftrightarrow>
     (case pubDate a of None \<Rightarrow> False | Some d \<Rightarrow> d \<noteq> [] \<and> getTime d \<noteq> None)"

definition timeOf :: "(string \<Rightarrow> int option) \<Rightarrow> NewsDataArticle \<Rightarrow> int" where
  "timeOf getTime a =
     (case pubDate a of None \<Rightarrow> 0 | Some d \<Rightarrow> (case getTime d of None \<Rightarrow> 0 | Some t \<Rightarrow> t))"

text \<open>
  The elements of a list in the order of their first occurrence, as the specification
  words the order of the deduplicated articles.
\<close>

fun firstOccurrences :: "'a list \<Rightarrow> 'a list" where
  "firstOccurrences [] = []"
| "firstOccurrences (x # xs) = x # filter (\<lambda>y. y \<noteq> x) (firstOccurrences xs)"


section \<open>Collaborators\<close>

text \<open>
  The modules \<^verbatim>\<open>constants\<close>, \<^verbatim>\<open>services/news\<close>, \<^verbatim>\<open>services/cloudinary\<close>, \<^verbatim>\<open>services/webhook\<close> and
  \<^verbatim>\<open>services/imageGenerator\<close> are not part of the sources: what they export enters as
  the fields of an environment, one function per collaborator, with a rejected promise
  as \<^term>\<open>Inl\<close> of the thrown value.  So do the generative model behind
  \<^verbatim>\<open>ai.models.generateContent\<close>, the date parser behind \<^verbatim>\<open>new Date(d).getTime()\<close>, the image
  decoder of \<^verbatim>\<open>skia-canvas\<close> and the drawing and encoding of the canvas once its images are
  loaded, and three built-ins of the engine: \<^verbatim>\<open>Array.prototype.sort\<close>,
  \<^verbatim>\<open>String.prototype.toUpperCase\<close> and the conversion of a number to a string inside a
  template literal.  Every theorem holds for every environment.
\<close>

type_synonym image = "nat \<times> nat"

datatype image_source = FromUrl string | FromBuffer string

record WebhookPayload =
  w_headline :: string
  w_imageUrl :: string
  w_summary :: string
  w_newsLink :: string
  w_status :: string

record env =
  NEWS_CATEGORIES :: "Category list"
  LOGO_URL :: string
  OVERLAY_IMAGE_URL :: string
  fetchLatestBangladeshiNews :: "string \<Rightarrow> thrown + NewsDataArticle list"
  parseDate :: "string \<Rightarrow> int option"
  Array_sort ::
    "(NewsDataArticle \<Rightarrow> NewsDataArticle \<Rightarrow> int) \<Rightarrow> NewsDataArticle list \<Rightarrow> NewsDataArticle list"
  String_toUpperCase :: "string \<Rightarrow> string"
  Number_toString :: "nat \<Rightarrow> string"
  responseText :: "NewsDataArticle list \<Rightarrow> thrown + string"
  chosenIdMatch :: "string \<Rightarrow> nat option"
  parseAnalysisResponse :: "string \<Rightarrow> thrown + NewsAnalysis"
  generateImageFromPrompt :: "string \<Rightarrow> thrown + string"
  skiaLoadImage :: "image_source \<Rightarrow> thrown + image"
  renderCanvas :: "string \<Rightarrow> string \<Rightarrow> string list \<Rightarrow> thrown + string"
  composeLoaded :: "image \<Rightarrow> string \<Rightarrow> string list \<Rightarrow> thrown + string"
  uploadToCloudinary :: "string \<Rightarrow> thrown + string"
  sendToMakeWebhook :: "WebhookPayload \<Rightarrow> thrown + unit"

section \<open>The analysis service (\<^verbatim>\<open>services/gemini.ts\<close>)\<close>

definition str_includes :: "string \<Rightarrow> string \<Rightarrow> bool" where
  "str_includes s searchString \<longleftrightarrow> indexOf s searchString 0 \<noteq> None"

text \<open>
  The \<^verbatim>\<open>catch\<close> of \<^verbatim>\<open>findAndAnalyzeBestArticleFromList\<close>: whatever was thrown inside its
  \<^verbatim>\<open>try\<close>, by the model or by the function itself, leaves as a new \<^verbatim>\<open>Error\<close>.
\<close>

definition analysisError :: "thrown \<Rightarrow> thrown" where
  "analysisError err =
     Error (case err of
              Error message \<Rightarrow>
                (if str_includes message ''RESOURCE_EXHAUSTED''
                 then ''AI request failed due to rate limits (RESOURCE_EXHAUSTED). '' @
                      ''The application made too many requests in a short period. '' @
                      ''Please wait and try again.''
                 else ''Failed to analyze the news article. '' @ message)
            | NonError \<Rightarrow> ''Failed to analyze the news article.'')"

text \<open>
  \<open>responseText\<close> is \<^verbatim>\<open>response.text?.trim()\<close> for the prompt built from the articles (the
  empty string when there is no text), \<open>chosenIdMatch\<close> the number that the regular
  expression \<^verbatim>\<open>/^CHOSEN_ID:\s*(\d+)/m\<close> and \<^verbatim>\<open>parseInt\<close> read from it, and
  \<open>parseAnalysisResponse\<close> the field parser; no property below depends on what they
  compute.  \<^verbatim>\<open>articles[chosenId - 1]\<close> is \<^verbatim>\<open>undefined\<close> outside the list.  \<^term>\<open>Inr None\<close> is
  the result \<^verbatim>\<open>null\<close>.
\<close>

definition findAndAnalyzeBestArticleFromList ::
    "env \<Rightarrow> NewsDataArticle list \<Rightarrow> thrown + (NewsAnalysis \<times> NewsDataArticle) option" where
  "findAndAnalyzeBestArticleFromList E articles =
     (case responseText E articles of
        Inl err \<Rightarrow> Inl (analysisError err)
      | Inr text \<Rightarrow>
          (if text = [] then
             Inl (analysisError (Error ''Received an empty text response from the API.''))
           else if String_toUpperCase E text = ''IRRELEVANT'' then Inr None
           else (case chosenIdMatch E text of
                   None \<Rightarrow>
                     Inl (analysisError (Error ''AI response did not include a valid CHOSEN_ID.''))
                 | Some chosenId \<Rightarrow>
                     (if 1 \<le> chosenId \<and> chosenId \<le> length articles then
                        (case parseAnalysisResponse E text of
                           Inl err \<Rightarrow> Inl (analysisError err)
                         | Inr analysis \<Rightarrow> Inr (Some (analysis, articles ! (chosenId - 1))))
                      else
                        Inl (analysisError (Error
                          (''AI chose an invalid ID: '' @ Number_toString E chosenId @ '' from a list of '' @
                           Number_toString E (length articles) @ '' articles.'')))))))"

section \<open>Image loading (\<^verbatim>\<open>loadImage\<close> and the head of \<^verbatim>\<open>composeImage\<close>)\<close>

definition startsWith :: "string \<Rightarrow> string \<Rightarrow> bool" where
  "startsWith s searchString \<longleftrightarrow> take (length searchString) s = searchString"

definition loadImage :: "env \<Rightarrow> string \<Rightarrow> thrown + image" where
  "loadImage E src =
     (if startsWith src ''data:'' then
        (case split_on CHR '','' src of
           _ # base64Data # _ \<Rightarrow>
             (if base64Data = [] then Inl (Error ''Invalid data URL: missing base64 content.'')
              else skiaLoadImage E (FromBuffer base64Data))
         | _ \<Rightarrow> Inl (Error ''Invalid data URL: missing base64 content.''))
      else skiaLoadImage E (FromUrl src))"

text \<open>
  \<^verbatim>\<open>composeImage\<close> first awaits the three images; a rejected load rejects the whole call.
  What follows (fonts, drawing, encoding) is \<open>renderCanvas\<close>.
\<close>

definition composeImage :: "env \<Rightarrow> string \<Rightarrow> string \<Rightarrow> string list \<Rightarrow> thrown + string" where
  "composeImage E mainImageSrc headline highlightPhrases =
     (case loadImage E mainImageSrc of
        Inl err \<Rightarrow> Inl err
      | Inr mainImage \<Rightarrow>
          (case loadImage E (OVERLAY_IMAGE_URL E) of
             Inl err \<Rightarrow> Inl err
           | Inr overlayImage \<Rightarrow>
               (case loadImage E (LOGO_URL E) of
                  Inl err \<Rightarrow> Inl err
                | Inr logoImage \<Rightarrow> renderCanvas E mainImageSrc headline highlightPhrases)))"

section \<open>The two phases of the server orchestrator\<close>

definition statusUpdate :: "TaskStatus \<Rightarrow> TaskUpdates" where
  "statusUpdate st = no_updates\<lparr>u_status := Some st\<rparr>"

definition errorUpdate :: "string \<Rightarrow> TaskUpdates" where
  "errorUpdate message = no_updates\<lparr>u_status := Some ERROR, u_error := Some message\<rparr>"

definition doneUpdate :: "TaskResult \<Rightarrow> TaskUpdates" where
  "doneUpdate res = no_updates\<lparr>u_status := Some DONE, u_result := Some res\<rparr>"

text \<open>The \<^verbatim>\<open>catch\<close> block of either phase, entered in state \<open>s\<close>.\<close>

definition taskFailed :: "string \<Rightarrow> thrown \<Rightarrow> run_state \<Rightarrow> run_state" where
  "taskFailed tid err s = updateTask tid (errorUpdate (errorMessage err)) s"

text \<open>
  One turn of the loop of phase 1.  Nothing is written between the first update and the
  last call that can throw, so the \<^verbatim>\<open>catch\<close> block always starts from the state after the
  first update.  The delay after a success changes no state.
\<close>

definition gatherCategory :: "env \<Rightarrow> run_state \<Rightarrow> Category \<Rightarrow> run_state" where
  "gatherCategory E s category =
     (let tid = apiValue category;
          s1 = updateTask tid (statusUpdate GATHERING) s
      in case fetchLatestBangladeshiNews E (apiValue category) of
           Inl err \<Rightarrow> taskFailed tid err s1
         | Inr allArticles \<Rightarrow>
             (let unusedArticles =
                    filter (\<lambda>article. link article \<notin> usedArticleLinks s1) allArticles
              in if length unusedArticles = 0 then
                   taskFailed tid
                     (Error (''No new, unused articles found for '' @ cat_name category @ ''.'')) s1
                 else
                   (case findAndAnalyzeBestArticleFromList E unusedArticles of
                      Inl err \<Rightarrow> taskFailed tid err s1
                    | Inr None \<Rightarrow>
                        taskFailed tid
                          (Error (''Could not find a relevant, unused Bangladesh-specific article for ''
                                  @ cat_name category @ ''.'')) s1
                    | Inr (Some found) \<Rightarrow>
                        updateTask tid (statusUpdate GATHERED)
                          (s1\<lparr>usedArticleLinks := insert (link (snd found)) (usedArticleLinks s1),
                              collectedData := collectedData s1 @
                                [\<lparr>c_taskId = tid, c_analysis = fst found, c_article = snd found\<rparr>]\<rparr>))))"

text \<open>From \<^verbatim>\<open>COMPOSING\<close> to the end of the \<^verbatim>\<open>try\<close> block, for the image source chosen.\<close>

definition composeAndDeliver :: "env \<Rightarrow> CollectedData \<Rightarrow> string \<Rightarrow> run_state \<Rightarrow> run_state" where
  "composeAndDeliver E d imageSrcToCompose s =
     (let tid = c_taskId d;
          s3 = updateTask tid (statusUpdate COMPOSING) s
      in case composeImage E imageSrcToCompose (a_headline (c_analysis d))
                (a_highlightPhrases (c_analysis d)) of
           Inl err \<Rightarrow> taskFailed tid err s3
         | Inr compiledImage \<Rightarrow>
             (let s4 = updateTask tid (statusUpdate UPLOADING) s3
              in case uploadToCloudinary E compiledImage of
                   Inl err \<Rightarrow> taskFailed tid err s4
                 | Inr imageUrl \<Rightarrow>
                     (let s5 = updateTask tid (statusUpdate SENDING_WEBHOOK) s4;
                          webhookPayload =
                            \<lparr>w_headline = a_headline (c_analysis d), w_imageUrl = imageUrl,
                             w_summary = a_caption (c_analysis d),
                             w_newsLink = link (c_article d), w_status = ''Queue''\<rparr>
                      in case sendToMakeWebhook E webhookPayload of
                           Inl err \<Rightarrow> taskFailed tid err s5
                         | Inr _ \<Rightarrow>
                             updateTask tid
                               (doneUpdate
                                  \<lparr>r_headline = a_headline (c_analysis d), r_imageUrl = imageUrl,
                                   r_caption = a_caption (c_analysis d),
                                   r_sourceUrl = link (c_article d),
                                   r_sourceName = a_sourceName (c_analysis d)\<rparr>) s5)))"

text \<open>\<^verbatim>\<open>!article.image_url\<close>: the image reference is missing or empty.\<close>

definition noImageUrl :: "NewsDataArticle \<Rightarrow> bool" where
  "noImageUrl a \<longleftrightarrow> (case image_url a of None \<Rightarrow> True | Some url \<Rightarrow> url = [])"

text \<open>
  One turn of the loop of phase 2.  The inner \<^verbatim>\<open>try\<close> throws exactly when
  \<^verbatim>\<open>!article.image_url\<close>: the reference is missing or empty.  The image itself is loaded
  later, inside \<^verbatim>\<open>composeImage\<close>.
\<close>

definition processCollected :: "env \<Rightarrow> run_state \<Rightarrow> CollectedData \<Rightarrow> run_state" where
  "processCollected E s d =
     (let tid = c_taskId d;
          s1 = updateTask tid (statusUpdate PROCESSING) s
      in case image_url (c_article d) of
           Some url \<Rightarrow>
             (if url = [] then
                (let s2 = updateTask tid (statusUpdate GENERATING_IMAGE) s1
                 in case generateImageFromPrompt E (a_imagePrompt (c_analysis d)) of
                      Inl err \<Rightarrow> taskFailed tid err s2
                    | Inr generated \<Rightarrow> composeAndDeliver E d generated s2)
              else composeAndDeliver E d url s1)
         | None \<Rightarrow>
             (let s2 = updateTask tid (statusUpdate GENERATING_IMAGE) s1
              in case generateImageFromPrompt E (a_imagePrompt (c_analysis d)) of
                   Inl err \<Rightarrow> taskFailed tid err s2
                 | Inr generated \<Rightarrow> composeAndDeliver E d generated s2))"

text \<open>
  The whole \<^verbatim>\<open>start(controller)\<close>: the initial tasks, each pushed once, phase 1 over the
  categories, phase 2 over what phase 1 collected.
\<close>

definition initialTasks :: "env \<Rightarrow> BatchTask list" where
  "initialTasks E =
     map (\<lambda>cat. \<lparr>task_id = apiValue cat, categoryName = cat_name cat, status = PENDING,
                  error = None, result = None\<rparr>) (NEWS_CATEGORIES E)"

definition initialState :: "env \<Rightarrow> run_state" where
  "initialState E =
     \<lparr>tasks = initialTasks E, stream = initialTasks E, usedArticleLinks = {}, collectedData = []\<rparr>"

definition phase1 :: "env \<Rightarrow> run_state \<Rightarrow> run_state" where
  "phase1 E s = foldl (gatherCategory E) s (NEWS_CATEGORIES E)"

definition phase2 :: "env \<Rightarrow> run_state \<Rightarrow> run_state" where
  "phase2 E s = foldl (processCollected E) s (collectedData s)"

definition handler :: "env \<Rightarrow> run_state" where
  "handler E = phase2 E (phase1 E (initialState E))"

text \<open>The first task of the list that carries an id, and the statuses streamed for an id.\<close>

definition taskOf :: "run_state \<Rightarrow> string \<Rightarrow> BatchTask option" where
  "taskOf s tid = List.find (\<lambda>t. task_id t = tid) (tasks s)"

definition streamedStatuses :: "run_state \<Rightarrow> string \<Rightarrow> TaskStatus list" where
  "streamedStatuses s tid = map status (filter (\<lambda>t. task_id t = tid) (stream s))"

section \<open>The value of a \<^verbatim>\<open>try\<close> block\<close>

text \<open>
  What the \<^verbatim>\<open>try\<close> block of phase 1 ends with for a category, entered with the used links
  of \<open>s\<close>: the exception that reaches the \<^verbatim>\<open>catch\<close> block, or the analysis and the article
  that are collected.
\<close>

definition gatherAttempt ::
  "env \<Rightarrow> run_state \<Rightarrow> Category \<Rightarrow> thrown + (NewsAnalysis \<times> NewsDataArticle)" where
  "gatherAttempt E s category =
     (case fetchLatestBangladeshiNews E (apiValue category) of
        Inl err \<Rightarrow> Inl err
      | Inr allArticles \<Rightarrow>
          (let unusedArticles =
                 filter (\<lambda>article. link article \<notin> usedArticleLinks s) allArticles
           in if length unusedArticles = 0 then
                Inl (Error (''No new, unused articles found for '' @ cat_name category @ ''.''))
              else
                (case findAndAnalyzeBestArticleFromList E unusedArticles of
                   Inl err \<Rightarrow> Inl err
                 | Inr None \<Rightarrow>
                     Inl (Error (''Could not find a relevant, unused Bangladesh-specific article for ''
                                 @ cat_name category @ ''.''))
                 | Inr (Some found) \<Rightarrow> Inr found)))"

text \<open>
  The same for the \<^verbatim>\<open>try\<close> block of phase 2: the exception, or the result that the \<^verbatim>\<open>DONE\<close>
  update carries.
\<close>

definition deliverAttempt :: "env \<Rightarrow> CollectedData \<Rightarrow> string \<Rightarrow> thrown + TaskResult" where
  "deliverAttempt E d imageSrcToCompose =
     (case composeImage E imageSrcToCompose (a_headline (c_analysis d))
             (a_highlightPhrases (c_analysis d)) of
        Inl err \<Rightarrow> Inl err
      | Inr compiledImage \<Rightarrow>
          (case uploadToCloudinary E compiledImage of
             Inl err \<Rightarrow> Inl err
           | Inr imageUrl \<Rightarrow>
               (case sendToMakeWebhook E
                       \<lparr>w_headline = a_headline (c_analysis d), w_imageUrl = imageUrl,
                        w_summary = a_caption (c_analysis d),
                        w_newsLink = link (c_article d), w_status = ''Queue''\<rparr> of
                  Inl err \<Rightarrow> Inl err
                | Inr _ \<Rightarrow>
                    Inr \<lparr>r_headline = a_headline (c_analysis d), r_imageUrl = imageUrl,
                         r_caption = a_caption (c_analysis d),
                         r_sourceUrl = link (c_article d),
                         r_sourceName = a_sourceName (c_analysis d)\<rparr>)))"

definition processAttempt :: "env \<Rightarrow> CollectedData \<Rightarrow> thrown + TaskResult" where
  "processAttempt E d =
     (if noImageUrl (c_article d) then
        (case generateImageFromPrompt E (a_imagePrompt (c_analysis d)) of
           Inl err \<Rightarrow> Inl err
         | Inr generated \<Rightarrow> deliverAttempt E d generated)
      else deliverAttempt E d (the (image_url (c_article d))))"


section \<open>The in-browser orchestrator (\<^verbatim>\<open>handleStartAutomation\<close> with both phases)\<close>

text \<open>
  The React state (\<^verbatim>\<open>tasks\<close>, \<^verbatim>\<open>completedCount\<close>) and the two locals of the callback.  The
  state has no stream; what an observer of the task list sees is the sequence of the
  calls of \<^verbatim>\<open>updateTask\<close>, kept in \<open>app_calls\<close>.  The status messages of
  \<^verbatim>\<open>sendStatusUpdate\<close> are not awaited and write no state.
\<close>

record app_state =
  app_tasks :: "BatchTask list"
  app_completedCount :: nat
  app_usedArticleLinks :: "string set"
  app_collectedData :: "CollectedData list"
  app_calls :: "(string \<times> TaskUpdates) list"

definition updateTask_app :: "string \<Rightarrow> TaskUpdates \<Rightarrow> app_state \<Rightarrow> app_state" where
  "updateTask_app tid updates s =
     s\<lparr>app_tasks := map (\<lambda>task. if task_id task = tid then spread task updates else task)
                       (app_tasks s),
       app_calls := app_calls s @ [(tid, updates)]\<rparr>"

definition taskFailed_app :: "string \<Rightarrow> thrown \<Rightarrow> app_state \<Rightarrow> app_state" where
  "taskFailed_app tid err s = updateTask_app tid (errorUpdate (errorMessage err)) s"

text \<open>
  \<^verbatim>\<open>Promise.all\<close>: the values in order, or the rejection of a promise that rejected (the
  first in the list here).
\<close>

fun promiseAll :: "(thrown + 'a) list \<Rightarrow> thrown + 'a list" where
  "promiseAll [] = Inr []"
| "promiseAll (Inl err # ps) = Inl err"
| "promiseAll (Inr v # ps) = (case promiseAll ps of Inl err \<Rightarrow> Inl err | Inr vs \<Rightarrow> Inr (v # vs))"

text \<open>The articles of a category: the trending merge for \<^verbatim>\<open>top\<close>, the fetch otherwise.\<close>

definition gatherArticles :: "env \<Rightarrow> Category \<Rightarrow> thrown + NewsDataArticle list" where
  "gatherArticles E category =
     (if apiValue category = ''top'' then
        (let otherCategoryValues =
               map apiValue (filter (\<lambda>c. apiValue c \<noteq> ''top'') (NEWS_CATEGORIES E))
         in case promiseAll (map (fetchLatestBangladeshiNews E) otherCategoryValues) of
              Inl err \<Rightarrow> Inl err
            | Inr fetched \<Rightarrow>
                (let allArticles = trendingArticles (Array_sort E) (parseDate E) fetched
                 in if length allArticles = 0 then
                      Inl (Error (''Could not find any valid articles to construct a '' @
                                  ''\"Trending\" category.''))
                    else Inr allArticles))
      else fetchLatestBangladeshiNews E (apiValue category))"

definition gatherCategory_app :: "env \<Rightarrow> app_state \<Rightarrow> Category \<Rightarrow> app_state" where
  "gatherCategory_app E s category =
     (let tid = apiValue category;
          s1 = updateTask_app tid (statusUpdate GATHERING) s
      in case gatherArticles E category of
           Inl err \<Rightarrow> taskFailed_app tid err s1
         | Inr allArticles \<Rightarrow>
             (let unusedArticles =
                    filter (\<lambda>article. link article \<notin> app_usedArticleLinks s1) allArticles
              in if length unusedArticles = 0 then
                   taskFailed_app tid
                     (Error (''No new, unused articles found for '' @ cat_name category @ ''.'')) s1
                 else
                   (case findAndAnalyzeBestArticleFromList E unusedArticles of
                      Inl err \<Rightarrow> taskFailed_app tid err s1
                    | Inr None \<Rightarrow>
                        taskFailed_app tid
                          (Error (''AI deemed all articles irrelevant for '' @ cat_name category
                                  @ ''.'')) s1
                    | Inr (Some found) \<Rightarrow>
                        updateTask_app tid (statusUpdate GATHERED)
                          (s1\<lparr>app_usedArticleLinks :=
                                insert (link (snd found)) (app_usedArticleLinks s1),
                              app_collectedData := app_collectedData s1 @
                                [\<lparr>c_taskId = tid, c_analysis = fst found, c_article = snd found\<rparr>]\<rparr>))))"

text \<open>From \<^verbatim>\<open>COMPOSING\<close> to the end of the \<^verbatim>\<open>try\<close> block, for the image that was loaded.\<close>

definition composeAndDeliver_app :: "env \<Rightarrow> CollectedData \<Rightarrow> image \<Rightarrow> app_state \<Rightarrow> app_state" where
  "composeAndDeliver_app E d imageToCompose s =
     (let tid = c_taskId d;
          s3 = updateTask_app tid (statusUpdate COMPOSING) s
      in case composeLoaded E imageToCompose (a_headline (c_analysis d))
                (a_highlightPhrases (c_analysis d)) of
           Inl err \<Rightarrow> taskFailed_app tid err s3
         | Inr compiledImage \<Rightarrow>
             (let s4 = updateTask_app tid (statusUpdate UPLOADING) s3
              in case uploadToCloudinary E compiledImage of
                   Inl err \<Rightarrow> taskFailed_app tid err s4
                 | Inr imageUrl \<Rightarrow>
                     (let s5 = updateTask_app tid (statusUpdate SENDING_WEBHOOK) s4;
                          webhookPayload =
                            \<lparr>w_headline = a_headline (c_analysis d), w_imageUrl = imageUrl,
                             w_summary = a_caption (c_analysis d),
                             w_newsLink = link (c_article d), w_status = ''Queue''\<rparr>
                      in case sendToMakeWebhook E webhookPayload of
                           Inl err \<Rightarrow> taskFailed_app tid err s5
                         | Inr _ \<Rightarrow>
                             (let s6 = updateTask_app tid
                                    (doneUpdate
                                       \<lparr>r_headline = a_headline (c_analysis d),
                                        r_imageUrl = imageUrl,
                                        r_caption = a_caption (c_analysis d),
                                        r_sourceUrl = link (c_article d),
                                        r_sourceName = a_sourceName (c_analysis d)\<rparr>) s5
                              in s6\<lparr>app_completedCount := app_completedCount s6 + 1\<rparr>))))"

text \<open>
  The article's own image, \<^verbatim>\<open>loadImage(article.image_url!)\<close>: loading a reference that is
  not there fails like any other load.
\<close>

definition loadArticleImage :: "env \<Rightarrow> NewsDataArticle \<Rightarrow> thrown + image" where
  "loadArticleImage E a =
     (case image_url a of
        None \<Rightarrow> Inl NonError
      | Some url \<Rightarrow> loadImage E url)"

text \<open>
  One turn of the loop of phase 2.  The inner \<^verbatim>\<open>try\<close> holds the load of the article's
  image, so every failed load leads to the generated substitute.
\<close>

definition processCollected_app :: "env \<Rightarrow> app_state \<Rightarrow> CollectedData \<Rightarrow> app_state" where
  "processCollected_app E s d =
     (let tid = c_taskId d;
          s1 = updateTask_app tid (statusUpdate PROCESSING) s
      in case loadArticleImage E (c_article d) of
           Inr imageToCompose \<Rightarrow> composeAndDeliver_app E d imageToCompose s1
         | Inl loadError \<Rightarrow>
             (let s2 = updateTask_app tid (statusUpdate GENERATING_IMAGE) s1
              in case generateImageFromPrompt E (a_imagePrompt (c_analysis d)) of
                   Inl err \<Rightarrow> taskFailed_app tid err s2
                 | Inr generatedImageBase64 \<Rightarrow>
                     (case loadImage E generatedImageBase64 of
                        Inl err \<Rightarrow> taskFailed_app tid err s2
                      | Inr imageToCompose \<Rightarrow> composeAndDeliver_app E d imageToCompose s2)))"

definition initialState_app :: "env \<Rightarrow> app_state" where
  "initialState_app E =
     \<lparr>app_tasks = initialTasks E, app_completedCount = 0, app_usedArticleLinks = {},
      app_collectedData = [], app_calls = []\<rparr>"

definition phase1_app :: "env \<Rightarrow> app_state \<Rightarrow> app_state" where
  "phase1_app E s = foldl (gatherCategory_app E) s (NEWS_CATEGORIES E)"

definition phase2_app :: "env \<Rightarrow> app_state \<Rightarrow> app_state" where
  "phase2_app E s = foldl (processCollected_app E) s (app_collectedData s)"

definition handleStartAutomation :: "env \<Rightarrow> app_state" where
  "handleStartAutomation E = phase2_app E (phase1_app E (initialState_app E))"

text \<open>The statuses that the calls of \<^verbatim>\<open>updateTask\<close> set for an id, in order.\<close>

definition calledStatuses :: "app_state \<Rightarrow> string \<Rightarrow> TaskStatus list" where
  "calledStatuses s tid =
     List.map_filter (\<lambda>call. if fst call = tid then u_status (snd call) else None) (app_calls s)"

section \<open>A sort for the examples\<close>

text \<open>
  The examples need one sort that meets the contract.  This one is the sort of the V8
  engine for an array of fewer than 64 elements: \<^verbatim>\<open>CountAndMakeRun\<close> takes the longest
  run at the start of the array that is non-descending or strictly descending under the
  compare function, reversing a descending one, and \<^verbatim>\<open>BinaryInsertionSort\<close> inserts the
  remaining elements one after the other at the place a binary search finds.

  \<open>countRun\<close> is the \<^verbatim>\<open>for\<close> loop of \<^verbatim>\<open>CountAndMakeRun\<close>: the number of elements after the
  second that continue the run.
\<close>

fun countRun :: "('a \<Rightarrow> 'a \<Rightarrow> int) \<Rightarrow> bool \<Rightarrow> 'a \<Rightarrow> 'a list \<Rightarrow> nat" where
  "countRun compareFn isDescending previousElement [] = 0"
| "countRun compareFn isDescending previousElement (currentElement # rest) =
     (if (if isDescending then compareFn currentElement previousElement \<ge> 0
          else compareFn currentElement previousElement < 0)
      then 0
      else Suc (countRun compareFn isDescending currentElement rest))"

text \<open>The run, in ascending order, and the elements after it.\<close>

fun countAndMakeRun :: "('a \<Rightarrow> 'a \<Rightarrow> int) \<Rightarrow> 'a list \<Rightarrow> 'a list \<times> 'a list" where
  "countAndMakeRun compareFn (elementHigh # elementLow # rest) =
     (let isDescending = compareFn elementLow elementHigh < 0;
          runLength = 2 + countRun compareFn isDescending elementLow rest;
          run = take runLength (elementHigh # elementLow # rest)
      in (if isDescending then rev run else run, drop runLength (elementHigh # elementLow # rest)))"
| "countAndMakeRun compareFn workArray = (workArray, [])"

text \<open>
  The \<^verbatim>\<open>while\<close> loop of \<^verbatim>\<open>BinaryInsertionSort\<close>: the place of \<open>pivot\<close> between \<open>left\<close> and
  \<open>right\<close>.
\<close>

function binarySearch :: "('a \<Rightarrow> 'a \<Rightarrow> int) \<Rightarrow> 'a \<Rightarrow> 'a list \<Rightarrow> nat \<Rightarrow> nat \<Rightarrow> nat" where
  "binarySearch compareFn pivot workArray left right =
     (if left < right then
        (let mid = left + (right - left) div 2
         in if compareFn pivot (workArray ! mid) < 0
            then binarySearch compareFn pivot workArray left mid
            else binarySearch compareFn pivot workArray (mid + 1) right)
      else left)"
  by pat_completeness auto
termination
  by (relation "measure (\<lambda>(c, p, w, left, right). right - left)") auto

declare binarySearch.simps [simp del]

definition binaryInsert :: "('a \<Rightarrow> 'a \<Rightarrow> int) \<Rightarrow> 'a list \<Rightarrow> 'a \<Rightarrow> 'a list" where
  "binaryInsert compareFn sortedPart pivot =
     (let left = binarySearch compareFn pivot sortedPart 0 (length sortedPart)
      in take left sortedPart @ pivot # drop left sortedPart)"

definition ex_arraySort :: "('a \<Rightarrow> 'a \<Rightarrow> int) \<Rightarrow> 'a list \<Rightarrow> 'a list" where
  "ex_arraySort compareFn xs =
     (if length xs < 2 then xs
      else (case countAndMakeRun compareFn xs of
              (run, rest) \<Rightarrow> foldl (binaryInsert compareFn) run rest))"


section \<open>Example inputs\<close>



text \<open>Raising for the examples: the letters a to z (codes 97 to 122) get bit 5 cleared.\<close>

fun ex_toUpperChar :: "char \<Rightarrow> char" where
  "ex_toUpperChar (Char b0 b1 b2 b3 b4 b5 b6 b7) =
     (if 97 \<le> (of_char (Char b0 b1 b2 b3 b4 b5 b6 b7) :: nat) \<and>
         (of_char (Char b0 b1 b2 b3 b4 b5 b6 b7) :: nat) \<le> 122
      then Char b0 b1 b2 b3 b4 False b6 b7
      else Char b0 b1 b2 b3 b4 b5 b6 b7)"

definition ex_toUpperCase :: "string \<Rightarrow> string" where
  "ex_toUpperCase s = map ex_toUpperChar s"

text \<open>Font metrics for the examples: every glyph is one em wide.\<close>

definition ex_measureText :: "int \<Rightarrow> string \<Rightarrow> real" where
  "ex_measureText fontSize s = real_of_int fontSize * real (length s)"

definition ex_headline :: string where
  "ex_headline = ''Flood warnings issued today''"

definition ex_overflow_headline :: string where
  "ex_overflow_headline =
     ''aaaaaaaaaaaaaaaaaaaaaaaaa bbbbbbbbbbbbbbbbbbbbbbbbb ccccccccccccccccccccccccc '' @
     ''ddddddddddddddddddddddddd eeeeeeeeeeeeeeeeeeeeeeeee fffffffffffffffffffffffff '' @
     ''ggggggggggggggggggggggggg hhhhhhhhhhhhhhhhhhhhhhhhh iiiiiiiiiiiiiiiiiiiiiiiii '' @
     ''jjjjjjjjjjjjjjjjjjjjjjjjj''"

text \<open>A task list of two categories, before the first update.\<close>

definition ex_task :: "string \<Rightarrow> TaskStatus \<Rightarrow> BatchTask" where
  "ex_task i st = \<lparr>task_id = i, categoryName = i, status = st, error = None, result = None\<rparr>"

definition ex_state :: run_state where
  "ex_state = \<lparr>tasks = [ex_task ''business'' PENDING, ex_task ''sports'' PENDING],
                stream = [], usedArticleLinks = {}, collectedData = []\<rparr>"

text \<open>
  A client that knows two tasks, and a parser that reads the two lines of the two-chunk
  example and nothing else.
\<close>

definition ex_client :: client_state where
  "ex_client =
     \<lparr>c_tasks = [(ex_task ''a'' PENDING)\<lparr>categoryName := ''Category A''\<rparr>,
                 (ex_task ''b'' PENDING)\<lparr>categoryName := ''Category B''\<rparr>],
      completedCount = 0, buffer = []\<rparr>"

text \<open>
  The two-chunk example: the text \<^verbatim>\<open>{"id":"a"}\n{"id":"b"}\n\<close>, cut inside the second line.
\<close>

definition ex_line_a :: string where "ex_line_a = ''{\"id\":\"a\"}''"
definition ex_line_b :: string where "ex_line_b = ''{\"id\":\"b\"}''"
definition ex_partial :: string where "ex_partial = ''{\"i''"
definition ex_chunk1 :: string where "ex_chunk1 = ex_line_a @ [newline] @ ex_partial"
definition ex_chunk2 :: string where "ex_chunk2 = ''d\":\"b\"}'' @ [newline]"

definition ex_parse :: "string \<Rightarrow> BatchTask option" where
  "ex_parse line =
     (if line = ex_line_a then Some (ex_task ''a'' GATHERING)
      else if line = ex_line_b then Some (ex_task ''b'' DONE)
      else None)"

text \<open>
  The three articles of the merge example, and the clock for their dates (midnight UTC
  in milliseconds since the epoch).
\<close>

definition ex_article :: "string \<Rightarrow> string \<Rightarrow> NewsDataArticle" where
  "ex_article l d = \<lparr>link = l, pubDate = Some d, image_url = None\<rparr>"

definition ex_getTime :: "string \<Rightarrow> int option" where
  "ex_getTime d =
     (if d = ''2024-01-01'' then Some 1704067200000
      else if d = ''2024-01-02'' then Some 1704153600000
      else if d = ''2024-01-03'' then Some 1704240000000
      else None)"

definition ex_fetched :: "NewsDataArticle list list" where
  "ex_fetched =
     [[ex_article ''a'' ''2024-01-02'', ex_article ''a'' ''2024-01-01'',
       ex_article ''b'' ''2024-01-03'']]"

text \<open>
  A run of the server orchestrator.  The first article has an image reference that
  does not load, the second has none, and the model finds the third irrelevant; the
  fetch for the category \<open>science\<close> fails.
\<close>

definition ex_art1 :: NewsDataArticle where
  "ex_art1 = \<lparr>link = ''https://news.example/1'', pubDate = Some ''2024-01-02'',
              image_url = Some ''https://img.example/broken.jpg''\<rparr>"

definition ex_art2 :: NewsDataArticle where
  "ex_art2 = \<lparr>link = ''https://news.example/2'', pubDate = Some ''2024-01-01'',
              image_url = None\<rparr>"

definition ex_art3 :: NewsDataArticle where
  "ex_art3 = \<lparr>link = ''https://news.example/3'', pubDate = None, image_url = None\<rparr>"

definition ex_analysis :: NewsAnalysis where
  "ex_analysis = \<lparr>a_headline = ''Flood warnings issued today'', a_highlightPhrases = [''Flood''],
                  a_caption = ''Caption'', a_imagePrompt = ''A river'', a_sourceName = ''Example''\<rparr>"

definition ex_category :: "string \<Rightarrow> Category" where
  "ex_category v = \<lparr>cat_name = v, apiValue = v\<rparr>"

definition ex_env :: "string list \<Rightarrow> env" where
  "ex_env cats =
     \<lparr>NEWS_CATEGORIES = map ex_category cats,
      LOGO_URL = ''https://img.example/logo.png'',
      OVERLAY_IMAGE_URL = ''https://img.example/overlay.png'',
      fetchLatestBangladeshiNews =
        (\<lambda>cat. if cat = ''science'' then Inl (Error ''Network down'')
               else if cat = ''world'' then Inr [ex_art3]
               else Inr [ex_art1, ex_art2]),
      parseDate = ex_getTime,
      Array_sort = ex_arraySort,
      String_toUpperCase = ex_toUpperCase,
      Number_toString = (\<lambda>n. ''0''),
      responseText =
        (\<lambda>articles. if articles = [ex_art3] then Inr ''irrelevant'' else Inr ''CHOSEN_ID: 1''),
      chosenIdMatch = (\<lambda>text. Some 1),
      parseAnalysisResponse = (\<lambda>text. Inr ex_analysis),
      generateImageFromPrompt = (\<lambda>prompt. Inr ''data:image/png;base64,AAAA''),
      skiaLoadImage =
        (\<lambda>src. if src = FromUrl ''https://img.example/broken.jpg'' then Inl (Error ''HTTP 404'')
               else Inr (1080, 1080)),
      renderCanvas = (\<lambda>src headline phrases. Inr ''data:image/png;base64,BBBB''),
      composeLoaded = (\<lambda>img headline phrases. Inr ''data:image/png;base64,BBBB''),
      uploadToCloudinary = (\<lambda>img. Inr ''https://cdn.example/post.png''),
      sendToMakeWebhook = (\<lambda>payload. Inr ())\<rparr>"

definition ex_collected :: "string \<Rightarrow> NewsDataArticle \<Rightarrow> CollectedData" where
  "ex_collected tid a = \<lparr>c_taskId = tid, c_analysis = ex_analysis, c_article = a\<rparr>"

definition ex_app :: app_state where
  "ex_app = \<lparr>app_tasks = [], app_completedCount = 0, app_usedArticleLinks = {},
             app_collectedData = [], app_calls = []\<rparr>"

definition ex_result :: TaskResult where
  "ex_result =
     \<lparr>r_headline = ''Flood warnings issued today'', r_imageUrl = ''https://cdn.example/post.png'',
      r_caption = ''Caption'', r_sourceUrl = ''https://news.example/2'',
      r_sourceName = ''Example''\<rparr>"

text \<open>Three articles for the merge, the second without a publish date.\<close>

definition ex_undated :: "NewsDataArticle list list" where
  "ex_undated =
     [[ex_article ''a'' ''2024-01-01'', \<lparr>link = ''u'', pubDate = None, image_url = None\<rparr>,
       ex_article ''b'' ''2024-01-03'']]"


section \<open>Properties of the update primitive\<close>

lemma findIndex_None: "findIndex p xs = None \<longleftrightarrow> (\<forall>x \<in> set xs. \<not> p x)"
  by (induction xs) (auto split: option.splits)

lemma findIndex_Some:
  "findIndex p xs = Some i \<Longrightarrow> i < length xs \<and> p (xs ! i) \<and> (\<forall>j < i. \<not> p (xs ! j))"
proof (induction xs arbitrary: i)
  case Nil
  then show ?case by simp
next
  case (Cons x xs)
  show ?case
  proof (cases "p x")
    case True
    with Cons.prems show ?thesis by simp
  next
    case False
    with Cons.prems obtain k where k: "findIndex p xs = Some k" "i = Suc k"
      by (auto split: option.splits)
    from Cons.IH [OF k(1)] False k(2) show ?thesis
      by (auto simp: less_Suc_eq_0_disj)
  qed
qed

text \<open>
  Claim C10.  \<^verbatim>\<open>updateTask\<close> with an id that no task carries changes no task and
  enqueues nothing.  With an id that is present, the task list keeps its length, the
  first task with that id (the only one when ids are unique) is replaced by the merge of
  the old task and the updates, every other position is unchanged, and exactly one
  record is appended to the stream: the task just written.  The merge is given field by
  field: each of \<^verbatim>\<open>id\<close>, \<^verbatim>\<open>categoryName\<close>, \<^verbatim>\<open>status\<close>, \<^verbatim>\<open>error\<close> and \<^verbatim>\<open>result\<close> is the value
  the updates carry for it, and the old task's value when they carry none.  Used links
  and collected data are never touched.
\<close>

theorem updateTask_frame:
  "(tid \<notin> task_id ` set (tasks s) \<longrightarrow> updateTask tid updates s = s) \<and>
   (tid \<in> task_id ` set (tasks s) \<longrightarrow>
      (\<exists>i < length (tasks s). \<exists>written.
          task_id (tasks s ! i) = tid \<and>
          (\<forall>j < i. task_id (tasks s ! j) \<noteq> tid) \<and>
          task_id written =
            (case u_id updates of None \<Rightarrow> task_id (tasks s ! i) | Some v \<Rightarrow> v) \<and>
          categoryName written =
            (case u_categoryName updates of None \<Rightarrow> categoryName (tasks s ! i) | Some v \<Rightarrow> v) \<and>
          status written =
            (case u_status updates of None \<Rightarrow> status (tasks s ! i) | Some v \<Rightarrow> v) \<and>
          error written =
            (case u_error updates of None \<Rightarrow> error (tasks s ! i) | Some v \<Rightarrow> Some v) \<and>
          result written =
            (case u_result updates of None \<Rightarrow> result (tasks s ! i) | Some v \<Rightarrow> Some v) \<and>
          tasks (updateTask tid updates s) = (tasks s)[i := written] \<and>
          length (tasks (updateTask tid updates s)) = length (tasks s) \<and>
          (\<forall>j < length (tasks s). j \<noteq> i \<longrightarrow>
              tasks (updateTask tid updates s) ! j = tasks s ! j) \<and>
          stream (updateTask tid updates s) = stream s @ [written] \<and>
          stream (updateTask tid updates s) = stream s @ [tasks (updateTask tid updates s) ! i])) \<and>
   usedArticleLinks (updateTask tid updates s) = usedArticleLinks s \<and>
   collectedData (updateTask tid updates s) = collectedData s"
proof (cases "findIndex (\<lambda>t. task_id t = tid) (tasks s)")
  case None
  then have "tid \<notin> task_id ` set (tasks s)"
    by (auto simp: findIndex_None)
  with None show ?thesis
    by (simp add: updateTask_def)
next
  case (Some i)
  from findIndex_Some [OF Some]
  have i: "i < length (tasks s)" "task_id (tasks s ! i) = tid"
    "\<forall>j < i. task_id (tasks s ! j) \<noteq> tid"
    by auto
  then have mem: "tid \<in> task_id ` set (tasks s)"
    by (metis imageI nth_mem)
  define written where "written = spread (tasks s ! i) updates"
  have upd: "updateTask tid updates s =
      s\<lparr>tasks := (tasks s)[i := written], stream := stream s @ [written]\<rparr>"
    using Some i(1) by (simp add: updateTask_def pushUpdate_def Let_def written_def)
  have fields:
    "task_id written = (case u_id updates of None \<Rightarrow> task_id (tasks s ! i) | Some v \<Rightarrow> v)"
    "categoryName written =
       (case u_categoryName updates of None \<Rightarrow> categoryName (tasks s ! i) | Some v \<Rightarrow> v)"
    "status written = (case u_status updates of None \<Rightarrow> status (tasks s ! i) | Some v \<Rightarrow> v)"
    "error written = (case u_error updates of None \<Rightarrow> error (tasks s ! i) | Some v \<Rightarrow> Some v)"
    "result written = (case u_result updates of None \<Rightarrow> result (tasks s ! i) | Some v \<Rightarrow> Some v)"
    by (simp_all add: written_def spread_def)
  have "\<exists>w. task_id (tasks s ! i) = tid \<and>
      (\<forall>j < i. task_id (tasks s ! j) \<noteq> tid) \<and>
      task_id w = (case u_id updates of None \<Rightarrow> task_id (tasks s ! i) | Some v \<Rightarrow> v) \<and>
      categoryName w =
        (case u_categoryName updates of None \<Rightarrow> categoryName (tasks s ! i) | Some v \<Rightarrow> v) \<and>
      status w = (case u_status updates of None \<Rightarrow> status (tasks s ! i) | Some v \<Rightarrow> v) \<and>
      error w = (case u_error updates of None \<Rightarrow> error (tasks s ! i) | Some v \<Rightarrow> Some v) \<and>
      result w = (case u_result updates of None \<Rightarrow> result (tasks s ! i) | Some v \<Rightarrow> Some v) \<and>
      tasks (updateTask tid updates s) = (tasks s)[i := w] \<and>
      length (tasks (updateTask tid updates s)) = length (tasks s) \<and>
      (\<forall>j < length (tasks s). j \<noteq> i \<longrightarrow>
          tasks (updateTask tid updates s) ! j = tasks s ! j) \<and>
      stream (updateTask tid updates s) = stream s @ [w] \<and>
      stream (updateTask tid updates s) = stream s @ [tasks (updateTask tid updates s) ! i]"
    using i fields by (intro exI [of _ written]) (simp add: upd)
  with i(1) mem show ?thesis
    by (auto simp: upd)
qed

text \<open>
  The three kinds of update the orchestrator makes, on a list of two tasks: an id that
  is not there, the \<^verbatim>\<open>catch\<close> block's status with its message, and the final status with
  its result.
\<close>

theorem updateTask_frame_witness:
  "''sports'' \<in> task_id ` set (tasks ex_state) \<and>
   ''top'' \<notin> task_id ` set (tasks ex_state) \<and>
   updateTask ''top'' (errorUpdate ''Network down'') ex_state = ex_state \<and>
   tasks (updateTask ''sports'' (errorUpdate ''Network down'') ex_state) =
     [ex_task ''business'' PENDING,
      \<lparr>task_id = ''sports'', categoryName = ''sports'', status = ERROR,
       error = Some ''Network down'', result = None\<rparr>] \<and>
   stream (updateTask ''sports'' (errorUpdate ''Network down'') ex_state) =
     [\<lparr>task_id = ''sports'', categoryName = ''sports'', status = ERROR,
       error = Some ''Network down'', result = None\<rparr>] \<and>
   tasks (updateTask ''business'' (doneUpdate ex_result) ex_state) =
     [\<lparr>task_id = ''business'', categoryName = ''business'', status = DONE,
       error = None, result = Some ex_result\<rparr>,
      ex_task ''sports'' PENDING] \<and>
   stream (updateTask ''business'' (doneUpdate ex_result) ex_state) =
     [\<lparr>task_id = ''business'', categoryName = ''business'', status = DONE,
       error = None, result = Some ex_result\<rparr>]"
proof -
  have present: "''sports'' \<in> task_id ` set (tasks ex_state)"
      "''business'' \<in> task_id ` set (tasks ex_state)"
    and absent: "''top'' \<notin> task_id ` set (tasks ex_state)"
    by (simp_all add: ex_state_def ex_task_def)
  from updateTask_frame [of "''top''" ex_state "errorUpdate ''Network down''"] absent
  have a: "updateTask ''top'' (errorUpdate ''Network down'') ex_state = ex_state"
    by blast
  from updateTask_frame [of "''sports''" ex_state "errorUpdate ''Network down''"] present(1)
  obtain i w where i: "i < length (tasks ex_state)" "task_id (tasks ex_state ! i) = ''sports''"
    and w: "task_id w = (case u_id (errorUpdate ''Network down'') of
                None \<Rightarrow> task_id (tasks ex_state ! i) | Some v \<Rightarrow> v)"
      "categoryName w = (case u_categoryName (errorUpdate ''Network down'') of
                None \<Rightarrow> categoryName (tasks ex_state ! i) | Some v \<Rightarrow> v)"
      "status w = (case u_status (errorUpdate ''Network down'') of
                None \<Rightarrow> status (tasks ex_state ! i) | Some v \<Rightarrow> v)"
      "error w = (case u_error (errorUpdate ''Network down'') of
                None \<Rightarrow> error (tasks ex_state ! i) | Some v \<Rightarrow> Some v)"
      "result w = (case u_result (errorUpdate ''Network down'') of
                None \<Rightarrow> result (tasks ex_state ! i) | Some v \<Rightarrow> Some v)"
    and upd: "tasks (updateTask ''sports'' (errorUpdate ''Network down'') ex_state) =
        (tasks ex_state)[i := w]"
      "stream (updateTask ''sports'' (errorUpdate ''Network down'') ex_state) =
        stream ex_state @ [w]"
    by blast
  from i have "i = 1"
    by (cases i) (simp_all add: ex_state_def ex_task_def)
  with w have "w = \<lparr>task_id = ''sports'', categoryName = ''sports'', status = ERROR,
       error = Some ''Network down'', result = None\<rparr>"
    by (cases w) (simp add: ex_state_def ex_task_def errorUpdate_def no_updates_def)
  with upd \<open>i = 1\<close> have failed:
    "tasks (updateTask ''sports'' (errorUpdate ''Network down'') ex_state) =
       [ex_task ''business'' PENDING,
        \<lparr>task_id = ''sports'', categoryName = ''sports'', status = ERROR,
         error = Some ''Network down'', result = None\<rparr>]"
    "stream (updateTask ''sports'' (errorUpdate ''Network down'') ex_state) =
       [\<lparr>task_id = ''sports'', categoryName = ''sports'', status = ERROR,
         error = Some ''Network down'', result = None\<rparr>]"
    by (simp_all add: ex_state_def)
  from updateTask_frame [of "''business''" ex_state "doneUpdate ex_result"] present(2)
  obtain k v where k: "k < length (tasks ex_state)" "task_id (tasks ex_state ! k) = ''business''"
    and v: "task_id v = (case u_id (doneUpdate ex_result) of
                None \<Rightarrow> task_id (tasks ex_state ! k) | Some x \<Rightarrow> x)"
      "categoryName v = (case u_categoryName (doneUpdate ex_result) of
                None \<Rightarrow> categoryName (tasks ex_state ! k) | Some x \<Rightarrow> x)"
      "status v = (case u_status (doneUpdate ex_result) of
                None \<Rightarrow> status (tasks ex_state ! k) | Some x \<Rightarrow> x)"
      "error v = (case u_error (doneUpdate ex_result) of
                None \<Rightarrow> error (tasks ex_state ! k) | Some x \<Rightarrow> Some x)"
      "result v = (case u_result (doneUpdate ex_result) of
                None \<Rightarrow> result (tasks ex_state ! k) | Some x \<Rightarrow> Some x)"
    and updk: "tasks (updateTask ''business'' (doneUpdate ex_result) ex_state) =
        (tasks ex_state)[k := v]"
      "stream (updateTask ''business'' (doneUpdate ex_result) ex_state) =
        stream ex_state @ [v]"
    by blast
  from k have "k = 0"
    by (cases k) (simp_all add: ex_state_def ex_task_def less_Suc_eq_0_disj)
  with v have "v = \<lparr>task_id = ''business'', categoryName = ''business'', status = DONE,
       error = None, result = Some ex_result\<rparr>"
    by (cases v) (simp add: ex_state_def ex_task_def doneUpdate_def no_updates_def)
  with updk \<open>k = 0\<close> have delivered:
    "tasks (updateTask ''business'' (doneUpdate ex_result) ex_state) =
       [\<lparr>task_id = ''business'', categoryName = ''business'', status = DONE,
         error = None, result = Some ex_result\<rparr>,
        ex_task ''sports'' PENDING]"
    "stream (updateTask ''business'' (doneUpdate ex_result) ex_state) =
       [\<lparr>task_id = ''business'', categoryName = ''business'', status = DONE,
         error = None, result = Some ex_result\<rparr>]"
    by (simp_all add: ex_state_def)
  from present(1) absent a failed delivered show ?thesis
    by blast
qed

section \<open>Word wrap\<close>

lemma split_on_nonempty: "split_on sep s \<noteq> []"
  by (induction s) (auto split: list.splits)

lemma split_on_no_sep: "w \<in> set (split_on sep s) \<Longrightarrow> sep \<notin> set w"
  by (induction s arbitrary: w) (auto split: if_splits list.splits)

lemma wrap_invariant:
  "set ws' \<subseteq> set ws \<Longrightarrow> st = foldl (wrapStep m W) ([], []) ws' \<Longrightarrow>
   (\<forall>l \<in> set (fst st). m l \<le> W \<or> l \<in> set ws) \<and>
   (if ws' = [] then snd st = [] else m (snd st) \<le> W \<or> snd st \<in> set ws)"
proof (induction ws' arbitrary: st rule: rev_induct)
  case Nil
  then show ?case by simp
next
  case (snoc w ws')
  define st0 where "st0 = foldl (wrapStep m W) ([], []) ws'"
  from snoc.prems have sub: "set ws' \<subseteq> set ws" and w: "w \<in> set ws"
    by auto
  from snoc.IH [OF sub st0_def]
  have ih1: "\<forall>l \<in> set (fst st0). m l \<le> W \<or> l \<in> set ws"
    and ih2: "snd st0 \<noteq> [] \<Longrightarrow> m (snd st0) \<le> W \<or> snd st0 \<in> set ws"
    by (auto split: if_splits)
  have st: "st = wrapStep m W st0 w"
    using snoc.prems(2) by (simp add: st0_def)
  show ?case
    using ih1 ih2 w unfolding st wrapStep_def Let_def
    by (auto simp: not_less)
qed

text \<open>
  Claim C4.  Whatever the text, the width and the font metrics: every line that
  \<^verbatim>\<open>calculateLines\<close> returns measures at most the bounding width, or it is one single word of
  the text (a piece between two spaces, holding no space itself) that alone is wider than
  the bounding width.
\<close>

theorem calculateLines_width:
  "\<forall>l \<in> set (calculateLines measureText text width).
      measureText l \<le> width \<or>
      (l \<in> set (split_on CHR '' '' text) \<and> CHR '' '' \<notin> set l \<and> width < measureText l)"
proof
  fix l
  assume l: "l \<in> set (calculateLines measureText text width)"
  define ws where "ws = split_on CHR '' '' text"
  define st where "st = foldl (wrapStep measureText width) ([], []) ws"
  have ne: "ws \<noteq> []"
    by (simp add: ws_def split_on_nonempty)
  from wrap_invariant [OF subset_refl st_def] ne
  have inv: "\<forall>l \<in> set (fst st). measureText l \<le> width \<or> l \<in> set ws"
    "measureText (snd st) \<le> width \<or> snd st \<in> set ws"
    by auto
  from l have "l \<in> set (fst st) \<or> l = snd st"
    by (auto simp: calculateLines_def st_def ws_def Let_def)
  with inv have "measureText l \<le> width \<or> l \<in> set ws"
    by auto
  then show "measureText l \<le> width \<or>
      (l \<in> set (split_on CHR '' '' text) \<and> CHR '' '' \<notin> set l \<and> width < measureText l)"
    using split_on_no_sep [of l "CHR '' ''" "text"] by (auto simp: ws_def not_le)
qed

lemma ex_lines: "calculateLines (ex_measureText 10) ''to be or not to be, that is the questionable'' 100
  = [''to be or'', ''not to be,'', ''that is'', ''the'', ''questionable'']"
  by (simp add: calculateLines_def ex_measureText_def wrapStep_def)

theorem calculateLines_width_witness:
  "calculateLines (ex_measureText 10) ''to be or not to be, that is the questionable'' 100
     = [''to be or'', ''not to be,'', ''that is'', ''the'', ''questionable''] \<and>
   ex_measureText 10 ''not to be,'' \<le> 100 \<and>
   ''questionable'' \<in> set (split_on CHR '' '' ''to be or not to be, that is the questionable'') \<and>
   100 < ex_measureText 10 ''questionable''"
proof -
  have "''questionable'' \<in> set (calculateLines (ex_measureText 10) ''to be or not to be, that is the questionable'' 100)"
    by (simp add: ex_lines)
  with calculateLines_width [of "ex_measureText 10" "''to be or not to be, that is the questionable''" 100]
  have "ex_measureText 10 ''questionable'' \<le> 100 \<or>
      (''questionable'' \<in> set (split_on CHR '' '' ''to be or not to be, that is the questionable'') \<and>
       100 < ex_measureText 10 ''questionable'')"
    by blast
  moreover have "\<not> ex_measureText 10 ''questionable'' \<le> 100"
    by (simp add: ex_measureText_def)
  moreover have "ex_measureText 10 ''not to be,'' \<le> 100"
    by (simp add: ex_measureText_def)
  ultimately show ?thesis
    using ex_lines by blast
qed


section \<open>Font fitting\<close>

lemma fitLoop_result:
  "20 < v_fontSize s \<Longrightarrow> 4 dvd v_fontSize s \<Longrightarrow> r = fitLoop m h s \<Longrightarrow>
   24 \<le> ctx_font r \<and> ctx_font r \<le> v_fontSize s \<and> 4 dvd ctx_font r \<and>
   v_lines r = Some (calculateLines (m (ctx_font r)) h maxWidth) \<and>
   v_lineHeight r = Some (real_of_int (ctx_font r) * 1.2) \<and>
   (fits m h (ctx_font r) \<and> v_fontSize r = ctx_font r \<or>
    \<not> fits m h (ctx_font r) \<and> ctx_font r = 24 \<and> v_fontSize r = 20) \<and>
   (\<forall>px. ctx_font r < px \<and> px \<le> v_fontSize s \<and> 4 dvd px \<longrightarrow> \<not> fits m h px)"
proof (induction m h s arbitrary: r rule: fitLoop.induct)
  case (1 m h s)
  define s2 where "s2 = s\<lparr>v_lineHeight := Some (real_of_int (v_fontSize s) * 1.2), ctx_font := v_fontSize s,
      v_lines := Some (calculateLines (m (v_fontSize s)) h maxWidth)\<rparr>"
  from "1.prems" have ge: "24 \<le> v_fontSize s"
    by presburger
  show ?case
  proof (cases "fits m h (v_fontSize s)")
    case True
    with "1.prems" have "r = s2"
      by (subst (asm) fitLoop.simps) (simp add: s2_def fits_def Let_def)
    with True ge "1.prems"(2) show ?thesis
      by (auto simp: s2_def)
  next
    case False
    with "1.prems" have r: "r = fitLoop m h (s2\<lparr>v_fontSize := v_fontSize s - 4\<rparr>)"
      by (subst (asm) fitLoop.simps) (simp add: s2_def fits_def Let_def)
    show ?thesis
    proof (cases "v_fontSize s = 24")
      case True
      with r have "r = s2\<lparr>v_fontSize := 20\<rparr>"
        by (subst (asm) fitLoop.simps) simp
      with True False show ?thesis
        by (auto simp: s2_def)
    next
      case f: False
      with ge "1.prems"(2) have ge': "20 < v_fontSize s - 4" "4 dvd (v_fontSize s - 4)"
        by presburger+
      have "24 \<le> ctx_font r \<and> ctx_font r \<le> v_fontSize s - 4 \<and> 4 dvd ctx_font r \<and>
         v_lines r = Some (calculateLines (m (ctx_font r)) h maxWidth) \<and>
         v_lineHeight r = Some (real_of_int (ctx_font r) * 1.2) \<and>
         (fits m h (ctx_font r) \<and> v_fontSize r = ctx_font r \<or>
          \<not> fits m h (ctx_font r) \<and> ctx_font r = 24 \<and> v_fontSize r = 20) \<and>
         (\<forall>px. ctx_font r < px \<and> px \<le> v_fontSize s - 4 \<and> 4 dvd px \<longrightarrow> \<not> fits m h px)"
        using "1.IH" [OF "1.prems"(1) refl refl refl, of r] "1.prems"(1) False ge' r
        by (simp add: s2_def fits_def Let_def)
      moreover have "px \<le> v_fontSize s - 4 \<or> px = v_fontSize s"
        if "px \<le> v_fontSize s" "4 dvd px" for px
        using that "1.prems"(2) by presburger
      ultimately show ?thesis
        using False by auto
    qed
  qed
qed


text \<open>
  Claim C5.  The loop is a total function: it returns for every headline and all font
  metrics, after at most thirteen decrements of 4 from the maximum 72 (the variable
  \<^verbatim>\<open>fontSize\<close> ends at 72 minus four times the number of decrements).  The sizes the loop
  tries are 72, 68, ..., 24; the least of them, 24, is the floor.  The headline is drawn
  with the font, the lines and the line height of the last size the loop tried, which is
  the largest tried size that fits, and the floor when none fits.  So the size drawn is
  never below the floor, and when no size down to the floor fits the headline is still
  drawn, at the floor, with the lines wrapped for the floor.
\<close>

theorem fitHeadline_floor:
  "24 \<le> ctx_font (fitHeadline m h) \<and> ctx_font (fitHeadline m h) \<le> 72 \<and>
   4 dvd ctx_font (fitHeadline m h) \<and>
   (\<exists>k \<le> 13. v_fontSize (fitHeadline m h) = 72 - 4 * int k) \<and>
   v_lines (fitHeadline m h) = Some (calculateLines (m (ctx_font (fitHeadline m h))) h maxWidth) \<and>
   v_lineHeight (fitHeadline m h) = Some (real_of_int (ctx_font (fitHeadline m h)) * 1.2) \<and>
   (fits m h (ctx_font (fitHeadline m h)) \<and> v_fontSize (fitHeadline m h) = ctx_font (fitHeadline m h) \<or>
    \<not> fits m h (ctx_font (fitHeadline m h)) \<and> ctx_font (fitHeadline m h) = 24 \<and>
      v_fontSize (fitHeadline m h) = 20) \<and>
   (\<forall>px. ctx_font (fitHeadline m h) < px \<and> px \<le> 72 \<and> 4 dvd px \<longrightarrow> \<not> fits m h px) \<and>
   ((\<forall>px. 24 \<le> px \<and> px \<le> 72 \<and> 4 dvd px \<longrightarrow> \<not> fits m h px) \<longrightarrow>
      ctx_font (fitHeadline m h) = 24 \<and>
      v_lines (fitHeadline m h) = Some (calculateLines (m 24) h maxWidth) \<and>
      v_lineHeight (fitHeadline m h) = Some (real_of_int 24 * 1.2))"
proof -
  define s0 :: fit_state where "s0 = \<lparr>v_fontSize = 72, ctx_font = 72, v_lineHeight = None, v_lines = None\<rparr>"
  define r where "r = fitHeadline m h"
  have r: "r = fitLoop m h s0"
    by (simp add: r_def fitHeadline_def s0_def)
  have "20 < v_fontSize s0" "4 dvd v_fontSize s0"
    by (simp_all add: s0_def)
  from fitLoop_result [OF this r]
  have *: "24 \<le> ctx_font r" "ctx_font r \<le> 72" "4 dvd ctx_font r"
    "v_lines r = Some (calculateLines (m (ctx_font r)) h maxWidth)"
    "v_lineHeight r = Some (real_of_int (ctx_font r) * 1.2)"
    "fits m h (ctx_font r) \<and> v_fontSize r = ctx_font r \<or>
      \<not> fits m h (ctx_font r) \<and> ctx_font r = 24 \<and> v_fontSize r = 20"
    "\<forall>px. ctx_font r < px \<and> px \<le> 72 \<and> 4 dvd px \<longrightarrow> \<not> fits m h px"
    by (simp_all add: s0_def)
  from *(1,2,3,6) have v: "20 \<le> v_fontSize r" "v_fontSize r \<le> 72" "4 dvd v_fontSize r"
    by auto
  then obtain q where q: "v_fontSize r = 4 * q" "5 \<le> q" "q \<le> 18"
    by (auto elim!: dvdE)
  have count: "\<exists>k \<le> 13. v_fontSize r = 72 - 4 * int k"
    using q by (intro exI [of _ "nat (18 - q)"]) simp
  have none: "ctx_font r = 24 \<and> v_lines r = Some (calculateLines (m 24) h maxWidth) \<and>
      v_lineHeight r = Some (real_of_int 24 * 1.2)"
    if "\<forall>px. 24 \<le> px \<and> px \<le> 72 \<and> 4 dvd px \<longrightarrow> \<not> fits m h px"
  proof -
    from that *(1,2,3) have "\<not> fits m h (ctx_font r)"
      by blast
    with *(6) have "ctx_font r = 24"
      by blast
    with *(4,5) show ?thesis
      by simp
  qed
  from * count none show ?thesis
    unfolding r_def by blast
qed

lemma ex_headline_fit:
  "fitHeadline ex_measureText ex_headline =
     \<lparr>v_fontSize = 68, ctx_font = 68, v_lineHeight = Some (real_of_int 68 * 1.2),
      v_lines = Some [''Flood warnings'', ''issued today'']\<rparr>"
  by (simp add: fitHeadline_def fitLoop.simps [of _ _ "\<lparr>v_fontSize = n, ctx_font = c, v_lineHeight = l, v_lines = k\<rparr>" for n c l k]
      ex_headline_def calculateLines_def wrapStep_def ex_measureText_def
      maxWidth_def maxTextHeight_def imageTop_def canvasSize_def textTopMargin_def textSideMargin_def)

lemma ex_overflow_words:
  "split_on CHR '' '' ex_overflow_headline =
    [''aaaaaaaaaaaaaaaaaaaaaaaaa'', ''bbbbbbbbbbbbbbbbbbbbbbbbb'', ''ccccccccccccccccccccccccc'',
     ''ddddddddddddddddddddddddd'', ''eeeeeeeeeeeeeeeeeeeeeeeee'', ''fffffffffffffffffffffffff'',
     ''ggggggggggggggggggggggggg'', ''hhhhhhhhhhhhhhhhhhhhhhhhh'', ''iiiiiiiiiiiiiiiiiiiiiiiii'',
     ''jjjjjjjjjjjjjjjjjjjjjjjjj'']"
  by (simp add: ex_overflow_headline_def)

lemma ex_overflow_lines:
  "20 \<le> px \<Longrightarrow> calculateLines (ex_measureText px) ex_overflow_headline maxWidth =
     split_on CHR '' '' ex_overflow_headline"
  unfolding calculateLines_def ex_overflow_words
  by (simp add: wrapStep_def ex_measureText_def maxWidth_def canvasSize_def textSideMargin_def)


lemma ex_overflow_nofit: "20 \<le> px \<Longrightarrow> \<not> fits ex_measureText ex_overflow_headline px"
  by (simp add: fits_def ex_overflow_lines ex_overflow_words maxTextHeight_def imageTop_def
      canvasSize_def textTopMargin_def)

text \<open>
  Two headlines, one em per glyph.  The first fits at 68 and not at 72.  The second, ten
  words of 25 letters, fits at no size; it is drawn at the floor 24 with a line height of
  28.8, one word per line.
\<close>

theorem fitHeadline_floor_witness:
  "ctx_font (fitHeadline ex_measureText ex_headline) = 68 \<and>
   v_lines (fitHeadline ex_measureText ex_headline) = Some [''Flood warnings'', ''issued today''] \<and>
   fits ex_measureText ex_headline 68 \<and> \<not> fits ex_measureText ex_headline 72 \<and>
   \<not> fits ex_measureText ex_overflow_headline 24 \<and>
   ctx_font (fitHeadline ex_measureText ex_overflow_headline) = 24 \<and>
   v_fontSize (fitHeadline ex_measureText ex_overflow_headline) = 20 \<and>
   v_lineHeight (fitHeadline ex_measureText ex_overflow_headline) = Some (144 / 5) \<and>
   v_lines (fitHeadline ex_measureText ex_overflow_headline) =
     Some (split_on CHR '' '' ex_overflow_headline)"
proof -
  have c: "ctx_font (fitHeadline ex_measureText ex_headline) = 68"
    by (simp add: ex_headline_fit)
  from fitHeadline_floor [of ex_measureText ex_headline]
  have a: "fits ex_measureText ex_headline 68" "\<not> fits ex_measureText ex_headline 72"
    by (simp_all add: c)
  have no: "\<forall>px. 24 \<le> px \<and> px \<le> 72 \<and> 4 dvd px \<longrightarrow> \<not> fits ex_measureText ex_overflow_headline px"
    by (simp add: ex_overflow_nofit)
  from fitHeadline_floor [of ex_measureText ex_overflow_headline] no
  have b: "ctx_font (fitHeadline ex_measureText ex_overflow_headline) = 24"
    "v_lines (fitHeadline ex_measureText ex_overflow_headline) =
       Some (calculateLines (ex_measureText 24) ex_overflow_headline maxWidth)"
    "v_lineHeight (fitHeadline ex_measureText ex_overflow_headline) = Some (real_of_int 24 * 1.2)"
    "fits ex_measureText ex_overflow_headline (ctx_font (fitHeadline ex_measureText ex_overflow_headline)) \<and>
       v_fontSize (fitHeadline ex_measureText ex_overflow_headline) =
         ctx_font (fitHeadline ex_measureText ex_overflow_headline) \<or>
     \<not> fits ex_measureText ex_overflow_headline (ctx_font (fitHeadline ex_measureText ex_overflow_headline)) \<and>
       ctx_font (fitHeadline ex_measureText ex_overflow_headline) = 24 \<and>
       v_fontSize (fitHeadline ex_measureText ex_overflow_headline) = 20"
    by blast+
  have n24: "\<not> fits ex_measureText ex_overflow_headline 24"
    by (simp add: ex_overflow_nofit)
  with b(1,4) have v: "v_fontSize (fitHeadline ex_measureText ex_overflow_headline) = 20"
    by simp
  have l: "calculateLines (ex_measureText 24) ex_overflow_headline maxWidth =
      split_on CHR '' '' ex_overflow_headline"
    by (simp add: ex_overflow_lines)
  from a n24 b(1,3) v show ?thesis
    by (simp add: ex_headline_fit b(2) l)
qed

section \<open>Highlight scan\<close>













section \<open>The stream reader\<close>

lemma split_on_append:
  "split_on c (a @ b) = butlast (split_on c a) @ split_on c (last (split_on c a) @ b)"
proof (induction a)
  case Nil
  then show ?case by simp
next
  case (Cons x a)
  obtain w ws where S: "split_on c a = w # ws"
    using split_on_nonempty [of c a] by (cases "split_on c a") auto
  show ?case
  proof (cases "x = c")
    case True
    with Cons S show ?thesis by simp
  next
    case False
    show ?thesis
    proof (cases ws)
      case Nil
      with Cons S False show ?thesis by simp
    next
      case (Cons w' ws')
      with Cons.IH S False show ?thesis by simp
    qed
  qed
qed

lemma processLine_buffer:
  "processLine parse (s\<lparr>buffer := b\<rparr>) line = (processLine parse s line)\<lparr>buffer := b\<rparr>"
  by (simp add: processLine_def applyUpdate_def Let_def split: option.splits)

lemma processLines_buffer:
  "foldl (processLine parse) (s\<lparr>buffer := b\<rparr>) ls = (foldl (processLine parse) s ls)\<lparr>buffer := b\<rparr>"
  by (induction ls arbitrary: s) (simp_all add: processLine_buffer)

lemma readChunk_eq:
  "readChunk parse s chunk =
     (foldl (processLine parse) s (butlast (split_on newline (buffer s @ chunk))))
       \<lparr>buffer := last (split_on newline (buffer s @ chunk))\<rparr>"
  by (simp add: readChunk_def Let_def split_on_nonempty processLines_buffer)

lemma split_on_no_sep_id: "sep \<notin> set s \<Longrightarrow> split_on sep s = [s]"
  by (induction s) auto

lemma readStream_eq:
  "newline \<notin> set (buffer s) \<Longrightarrow>
   readStream parse s chunks =
     (foldl (processLine parse) s (butlast (split_on newline (buffer s @ concat chunks))))
       \<lparr>buffer := last (split_on newline (buffer s @ concat chunks))\<rparr>"
proof (induction chunks arbitrary: s)
  case Nil
  then show ?case
    by (simp add: readStream_def split_on_no_sep_id)
next
  case (Cons c cs)
  define P where "P = split_on newline (buffer s @ c)"
  define X where "X = split_on newline (last P @ concat cs)"
  have X: "X \<noteq> []"
    by (simp add: X_def split_on_nonempty)
  have whole: "split_on newline (buffer s @ concat (c # cs)) = butlast P @ X"
    using split_on_append [of newline "buffer s @ c" "concat cs"] by (simp add: P_def X_def)
  have "last P \<in> set P"
    by (simp add: P_def split_on_nonempty)
  then have nl: "newline \<notin> set (buffer (readChunk parse s c))"
    by (simp add: readChunk_eq P_def [symmetric] split_on_no_sep [of _ newline "buffer s @ c"])
  have "readStream parse s (c # cs) = readStream parse (readChunk parse s c) cs"
    by (simp add: readStream_def)
  also have "\<dots> = (foldl (processLine parse) (foldl (processLine parse) s (butlast P)) (butlast X))
       \<lparr>buffer := last X\<rparr>"
  proof -
    have rc: "readChunk parse s c = (foldl (processLine parse) s (butlast P))\<lparr>buffer := last P\<rparr>"
      by (simp add: readChunk_eq P_def)
    then have b: "buffer (readChunk parse s c) = last P"
      by simp
    show ?thesis
      unfolding Cons.IH [OF nl] b X_def [symmetric]
      by (simp add: rc processLines_buffer)
  qed
  also have "\<dots> = (foldl (processLine parse) s (butlast (butlast P @ X)))\<lparr>buffer := last (butlast P @ X)\<rparr>"
    using X by (simp add: butlast_append)
  finally show ?case
    by (simp only: whole)
qed

lemma ex_chunks_lines:
  "split_on newline (ex_chunk1 @ ex_chunk2) =
     [ex_line_a, ex_line_b, []]"
  by (simp add: newline_def ex_chunk1_def ex_chunk2_def ex_line_a_def ex_line_b_def ex_partial_def)

lemma ex_lines_not_blank: "\<not> isBlank ex_line_a" "\<not> isBlank ex_line_b"
  by (simp_all add: isBlank_def isWhiteSpace_def ex_line_a_def ex_line_b_def)

lemma applyUpdate_buffer: "buffer (applyUpdate u s) = buffer s"
  by (simp add: applyUpdate_def Let_def)

text \<open>
  Claim C2.  Started with an empty buffer, the reader's final state depends on the chunks
  only through their concatenation: it is the state after handling, one by one and in
  order, the complete lines of the concatenated text (the pieces before each line feed),
  and the buffer holds the unfinished last piece.  A line that does not parse changes
  nothing and the lines after it are handled as if it were not there.  For the chunks
  \<^verbatim>\<open>{"id":"a"}\n{"i\<close> and \<^verbatim>\<open>d":"b"}\n\<close> (\<open>ex_chunk1\<close>, \<open>ex_chunk2\<close>) exactly the two lines \<^verbatim>\<open>{"id":"a"}\<close> and \<^verbatim>\<open>{"id":"b"}\<close> are
  parsed, and the two parsed objects are applied in that order.
\<close>

theorem stream_reader_lines:
  "(buffer s = [] \<longrightarrow>
      readStream parse s chunks =
        (foldl (processLine parse) s (butlast (split_on newline (concat chunks))))
          \<lparr>buffer := last (split_on newline (concat chunks))\<rparr>) \<and>
   (parse bad = None \<longrightarrow>
      foldl (processLine parse) s (before @ bad # after) =
        foldl (processLine parse) s (before @ after)) \<and>
   (buffer s = [] \<and> parse ex_line_a = Some ua \<and> parse ex_line_b = Some ub \<longrightarrow>
      readStream parse s [ex_chunk1, ex_chunk2] =
        applyUpdate ub (applyUpdate ua s))"
proof (intro conjI impI)
  assume "buffer s = []"
  then show "readStream parse s chunks =
        (foldl (processLine parse) s (butlast (split_on newline (concat chunks))))
          \<lparr>buffer := last (split_on newline (concat chunks))\<rparr>"
    using readStream_eq [of s parse chunks] by simp
next
  assume "parse bad = None"
  then have "processLine parse s' bad = s'" for s'
    by (simp add: processLine_def)
  then show "foldl (processLine parse) s (before @ bad # after) =
        foldl (processLine parse) s (before @ after)"
    by simp
next
  assume a: "buffer s = [] \<and> parse ex_line_a = Some ua \<and> parse ex_line_b = Some ub"
  note nb = ex_lines_not_blank
  from a have "readStream parse s [ex_chunk1, ex_chunk2] =
      (foldl (processLine parse) s [ex_line_a, ex_line_b])\<lparr>buffer := []\<rparr>"
    using readStream_eq [of s parse "[ex_chunk1, ex_chunk2]"]
    by (simp add: ex_chunks_lines)
  also have "\<dots> = (applyUpdate ub (applyUpdate ua s))\<lparr>buffer := []\<rparr>"
    using a nb by (simp add: processLine_def)
  also have "\<dots> = applyUpdate ub (applyUpdate ua s)"
    using a applyUpdate_buffer [of ub "applyUpdate ua s"] applyUpdate_buffer [of ua s] by simp
  finally show "readStream parse s [ex_chunk1, ex_chunk2] =
        applyUpdate ub (applyUpdate ua s)" .
qed

theorem stream_reader_lines_witness:
  "readStream ex_parse ex_client [ex_chunk1, ex_chunk2] =
     \<lparr>c_tasks = [ex_task ''a'' GATHERING, ex_task ''b'' DONE], completedCount = 1, buffer = []\<rparr> \<and>
   foldl (processLine ex_parse) ex_client [ex_line_a, ex_partial, ex_line_b] =
     \<lparr>c_tasks = [ex_task ''a'' GATHERING, ex_task ''b'' DONE], completedCount = 1, buffer = []\<rparr>"
proof -
  have p: "ex_parse ex_line_a = Some (ex_task ''a'' GATHERING)"
    "ex_parse ex_line_b = Some (ex_task ''b'' DONE)" "ex_parse ex_partial = None"
    by (simp_all add: ex_parse_def ex_line_a_def ex_line_b_def ex_partial_def)
  have b: "buffer ex_client = []"
    by (simp add: ex_client_def)
  have r: "applyUpdate (ex_task ''b'' DONE) (applyUpdate (ex_task ''a'' GATHERING) ex_client) =
      \<lparr>c_tasks = [ex_task ''a'' GATHERING, ex_task ''b'' DONE], completedCount = 1, buffer = []\<rparr>"
    by (simp add: applyUpdate_def ex_client_def ex_task_def)
  note inst = stream_reader_lines [of ex_client ex_parse _ "ex_partial" "[ex_line_a]"
      "[ex_line_b]" "ex_task ''a'' GATHERING" "ex_task ''b'' DONE"]
  from inst p b have
    "readStream ex_parse ex_client [ex_chunk1, ex_chunk2] =
       applyUpdate (ex_task ''b'' DONE) (applyUpdate (ex_task ''a'' GATHERING) ex_client)"
    by blast
  moreover from inst p have
    "foldl (processLine ex_parse) ex_client [ex_line_a, ex_partial, ex_line_b] =
       foldl (processLine ex_parse) ex_client [ex_line_a, ex_line_b]"
    by simp
  moreover have "foldl (processLine ex_parse) ex_client [ex_line_a, ex_line_b] =
      applyUpdate (ex_task ''b'' DONE) (applyUpdate (ex_task ''a'' GATHERING) ex_client)"
    by (simp add: processLine_def p ex_lines_not_blank)
  ultimately show ?thesis
    by (simp add: r)
qed

section \<open>The completed count\<close>

text \<open>
  Claim C3.  The client applies an update whose status is \<^verbatim>\<open>DONE\<close> to a task list with
  unique ids that records a task with the id of the update: when the recorded status of
  that task is not \<^verbatim>\<open>DONE\<close> the completed count grows by exactly one, and when it is
  already \<^verbatim>\<open>DONE\<close> the count stays as it is.  Either way the update replaces that task and
  no other.
\<close>

theorem done_counted_once:
  assumes "distinct (map task_id (c_tasks s))"
    and "t \<in> set (c_tasks s)"
    and "task_id t = task_id update"
    and "status update = DONE"
  shows "completedCount (applyUpdate update s) =
           (if status t = DONE then completedCount s else completedCount s + 1) \<and>
         c_tasks (applyUpdate update s) = map (\<lambda>x. if x = t then update else x) (c_tasks s)"
proof -
  from assms(1) have inj: "inj_on task_id (set (c_tasks s))"
    by (simp add: distinct_map)
  have only: "x = t" if "x \<in> set (c_tasks s)" "task_id x = task_id update" for x
    by (rule inj_onD [OF inj _ that(1) assms(2)]) (simp add: that(2) assms(3))
  have seen: "list_ex (\<lambda>x. task_id x = task_id update \<and> status x = DONE) (c_tasks s) \<longleftrightarrow>
      status t = DONE"
  proof
    assume "list_ex (\<lambda>x. task_id x = task_id update \<and> status x = DONE) (c_tasks s)"
    then obtain x where x: "x \<in> set (c_tasks s)" "task_id x = task_id update" "status x = DONE"
      unfolding list_ex_iff by blast
    from only [OF x(1,2)] x(3) show "status t = DONE"
      by simp
  next
    assume "status t = DONE"
    with assms(2,3) show "list_ex (\<lambda>x. task_id x = task_id update \<and> status x = DONE) (c_tasks s)"
      unfolding list_ex_iff by blast
  qed
  have repl: "map (\<lambda>x. if task_id x = task_id update then update else x) (c_tasks s) =
      map (\<lambda>x. if x = t then update else x) (c_tasks s)"
  proof (rule map_cong [OF refl])
    fix x
    assume "x \<in> set (c_tasks s)"
    then have "task_id x = task_id update \<longleftrightarrow> x = t"
      using only [of x] assms(3) by blast
    then show "(if task_id x = task_id update then update else x) = (if x = t then update else x)"
      by simp
  qed
  show ?thesis
    unfolding applyUpdate_def Let_def seen repl
    using assms(4) by simp
qed

theorem done_counted_once_witness:
  "completedCount (applyUpdate (ex_task ''b'' DONE) ex_client) = 1 \<and>
   completedCount (applyUpdate (ex_task ''b'' DONE) (applyUpdate (ex_task ''b'' DONE) ex_client)) = 1"
proof -
  define u where "u = ex_task ''b'' DONE"
  define t where "t = (ex_task ''b'' PENDING)\<lparr>categoryName := ''Category B''\<rparr>"
  define s1 where "s1 = applyUpdate u ex_client"
  have u: "status u = DONE" "task_id u = ''b''"
    by (simp_all add: u_def ex_task_def)
  have t: "status t = PENDING" "task_id t = ''b''"
    by (simp_all add: t_def ex_task_def)
  have d: "distinct (map task_id (c_tasks ex_client))"
    by (simp add: ex_client_def ex_task_def)
  have m: "t \<in> set (c_tasks ex_client)"
    by (simp add: ex_client_def t_def)
  have c0: "completedCount ex_client = 0"
    by (simp add: ex_client_def)
  from done_counted_once [OF d m, of u] u t c0
  have first: "completedCount s1 = 1" "c_tasks s1 = map (\<lambda>x. if x = t then u else x) (c_tasks ex_client)"
    by (simp_all add: s1_def)
  have d1: "distinct (map task_id (c_tasks s1))"
    by (simp add: first(2) ex_client_def ex_task_def t_def u_def)
  have m1: "u \<in> set (c_tasks s1)"
    by (simp add: first(2) ex_client_def t_def)
  from done_counted_once [OF d1 m1 refl u(1)] u first(1)
  have "completedCount (applyUpdate u s1) = 1"
    by simp
  with first(1) show ?thesis
    by (simp add: s1_def u_def)
qed

section \<open>The trending merge\<close>

lemma mapSet_keys: "fst ` set (mapSet k v m) = insert k (fst ` set m)"
proof (induction m)
  case Nil
  then show ?case by simp
next
  case (Cons e m)
  obtain k' v' where e: "e = (k', v')"
    by (cases e)
  show ?case
    by (simp add: e Cons.IH insert_commute)
qed

lemma mapSet_distinct: "distinct (map fst m) \<Longrightarrow> distinct (map fst (mapSet k v m))"
proof (induction m)
  case Nil
  then show ?case by simp
next
  case (Cons e m)
  obtain k' v' where e: "e = (k', v')"
    by (cases e)
  from Cons show ?case
    by (auto simp: e mapSet_keys)
qed

lemma mapSet_map_of: "map_of (mapSet k v m) = (map_of m)(k \<mapsto> v)"
proof (induction m)
  case Nil
  then show ?case by simp
next
  case (Cons e m)
  obtain k' v' where e: "e = (k', v')"
    by (cases e)
  show ?case
  proof (cases "k' = k")
    case True
    then show ?thesis by (auto simp: e)
  next
    case False
    then show ?thesis by (auto simp: e Cons.IH fun_eq_iff)
  qed
qed

lemma newMap_snoc: "newMap (es @ [(k, v)]) = mapSet k v (newMap es)"
  by (simp add: newMap_def)

lemma newMap_distinct: "distinct (map fst (newMap es))"
proof (induction es rule: rev_induct)
  case Nil
  then show ?case by (simp add: newMap_def)
next
  case (snoc e es)
  obtain k v where e: "e = (k, v)"
    by (cases e)
  from snoc show ?case
    by (simp add: e newMap_snoc mapSet_distinct)
qed

text \<open>
  Looking a link up in the map built from a list of articles gives the last article of
  the list that has this link.
\<close>

lemma newMap_lookup:
  "map_of (newMap (map (\<lambda>a. (link a, a)) xs)) k =
     (if k \<in> link ` set xs then Some (last (filter (\<lambda>b. link b = k) xs)) else None)"
proof (induction xs rule: rev_induct)
  case Nil
  then show ?case by (simp add: newMap_def)
next
  case (snoc x xs)
  have "newMap (map (\<lambda>a. (link a, a)) (xs @ [x])) =
      mapSet (link x) x (newMap (map (\<lambda>a. (link a, a)) xs))"
    by (simp add: newMap_snoc)
  then show ?case
    by (simp add: mapSet_map_of snoc.IH)
qed

lemma last_filter_holds: "filter P xs \<noteq> [] \<Longrightarrow> P (last (filter P xs)) \<and> last (filter P xs) \<in> set xs"
proof -
  assume "filter P xs \<noteq> []"
  then have "last (filter P xs) \<in> set (filter P xs)"
    by (rule last_in_set)
  then show ?thesis
    by simp
qed

lemma uniqueArticles_last:
  "distinct (map link (uniqueArticles xs)) \<and>
   (\<forall>a \<in> set (uniqueArticles xs). a \<in> set xs \<and> a = last (filter (\<lambda>b. link b = link a) xs)) \<and>
   link ` set (uniqueArticles xs) = link ` set xs"
proof -
  define m where "m = newMap (map (\<lambda>a. (link a, a)) xs)"
  have d: "distinct (map fst m)"
    by (simp add: m_def newMap_distinct)
  have u: "uniqueArticles xs = map snd m"
    by (simp add: uniqueArticles_def mapValues_def m_def)
  have entry: "k \<in> link ` set xs \<and> v = last (filter (\<lambda>b. link b = k) xs) \<and> link v = k \<and> v \<in> set xs"
    if "(k, v) \<in> set m" for k v
  proof -
    from that d have "map_of m k = Some v"
      by simp
    then have kv: "k \<in> link ` set xs" "v = last (filter (\<lambda>b. link b = k) xs)"
      unfolding m_def newMap_lookup by (simp_all split: if_splits)
    from kv(1) have "filter (\<lambda>b. link b = k) xs \<noteq> []"
      by (auto simp: filter_empty_conv)
    from last_filter_holds [OF this] kv show ?thesis
      by simp
  qed
  have same: "map link (map snd m) = map fst m"
  proof -
    have "link (snd e) = fst e" if "e \<in> set m" for e
    proof -
      obtain k v where e: "e = (k, v)"
        by (cases e)
      from that have "(k, v) \<in> set m"
        by (simp add: e)
      from entry [OF this] show ?thesis
        unfolding e fst_conv snd_conv by blast
    qed
    then show ?thesis
      by simp
  qed
  have "distinct (map link (uniqueArticles xs))"
    by (simp only: u same d)
  moreover have "a \<in> set xs \<and> a = last (filter (\<lambda>b. link b = link a) xs)"
    if "a \<in> set (uniqueArticles xs)" for a
  proof -
    from that obtain k where "(k, a) \<in> set m"
      unfolding u by force
    from entry [OF this] have "a \<in> set xs" "link a = k" "a = last (filter (\<lambda>b. link b = k) xs)"
      by blast+
    then show ?thesis
      by blast
  qed
  moreover have "link ` set (uniqueArticles xs) = link ` set xs"
  proof -
    have "link ` set (uniqueArticles xs) = set (map link (map snd m))"
      by (simp only: u set_map)
    also have "\<dots> = fst ` set m"
      by (simp only: same set_map)
    also have "\<dots> = dom (map_of m)"
      by (simp only: dom_map_of_conv_image_fst)
    also have "\<dots> = link ` set xs"
      unfolding m_def by (auto simp: newMap_lookup dom_def split: if_splits)
    finally show ?thesis .
  qed
  ultimately show ?thesis
    by blast
qed

text \<open>The keys of the map are the links in the order of their first occurrence.\<close>

lemma mapSet_fst:
  "map fst (mapSet k v m) = (if k \<in> fst ` set m then map fst m else map fst m @ [k])"
proof (induction m)
  case Nil
  then show ?case by simp
next
  case (Cons e m)
  obtain k' v' where e: "e = (k', v')"
    by (cases e)
  show ?case
    by (auto simp: e Cons.IH)
qed

lemma firstOccurrences_set: "set (firstOccurrences xs) = set xs"
  by (induction xs) auto

lemma firstOccurrences_snoc:
  "firstOccurrences (xs @ [x]) =
     (if x \<in> set xs then firstOccurrences xs else firstOccurrences xs @ [x])"
proof (induction xs)
  case Nil
  then show ?case by simp
next
  case (Cons y xs)
  show ?case
  proof (cases "x = y")
    case True
    have "filter (\<lambda>z. z \<noteq> y) (firstOccurrences xs @ [y]) = filter (\<lambda>z. z \<noteq> y) (firstOccurrences xs)"
      by simp
    with True Cons.IH show ?thesis
      by (cases "y \<in> set xs") simp_all
  next
    case False
    with Cons.IH show ?thesis
      by (cases "x \<in> set xs") simp_all
  qed
qed

lemma newMap_keys: "map fst (newMap es) = firstOccurrences (map fst es)"
proof (induction es rule: rev_induct)
  case Nil
  then show ?case by (simp add: newMap_def)
next
  case (snoc e es)
  obtain k v where e: "e = (k, v)"
    by (cases e)
  have "fst ` set (newMap es) = set (map fst (newMap es))"
    by simp
  also have "\<dots> = fst ` set es"
    by (simp only: snoc.IH firstOccurrences_set set_map)
  finally have keys: "fst ` set (newMap es) = fst ` set es" .
  show ?case
    unfolding e map_append list.map fst_conv newMap_snoc mapSet_fst firstOccurrences_snoc
    by (simp add: keys snoc.IH)
qed

lemma uniqueArticles_eq:
  "uniqueArticles xs =
     map (\<lambda>l. last (filter (\<lambda>a. link a = l) xs)) (firstOccurrences (map link xs))"
proof -
  define m where "m = newMap (map (\<lambda>a. (link a, a)) xs)"
  have d: "distinct (map fst m)"
    by (simp add: m_def newMap_distinct)
  have keys: "map fst m = firstOccurrences (map link xs)"
    by (simp add: m_def newMap_keys comp_def)
  have "snd e = last (filter (\<lambda>a. link a = fst e) xs)" if "e \<in> set m" for e
  proof -
    from that d have "map_of m (fst e) = Some (snd e)"
      by simp
    then show ?thesis
      unfolding m_def newMap_lookup by (simp split: if_splits)
  qed
  then have "map snd m = map (\<lambda>l. last (filter (\<lambda>a. link a = l) xs)) (map fst m)"
    by simp
  then show ?thesis
    by (simp add: uniqueArticles_def mapValues_def m_def [symmetric] keys)
qed

text \<open>
  Under the contract the result of the sort is fixed for a compare function that is the
  difference of a key: it is the stable sort by that key.
\<close>

lemma sortContract_sort_key:
  assumes "sortContract arraySort"
    and "\<forall>a \<in> set xs. \<forall>b \<in> set xs. compareFn a b = key a - key b"
  shows "arraySort compareFn xs = sort_key key xs"
proof -
  from assms have c: "mset (arraySort compareFn xs) = mset xs"
    "sorted (map key (arraySort compareFn xs))"
    "\<And>k. filter (\<lambda>a. key a = k) (arraySort compareFn xs) = filter (\<lambda>a. key a = k) xs"
    unfolding sortContract_def by blast+
  have "sort_key key xs = arraySort compareFn xs"
  proof (rule properties_for_sort_key)
    show "mset (arraySort compareFn xs) = mset xs"
      by (rule c(1))
    show "sorted (map key (arraySort compareFn xs))"
      by (rule c(2))
    show "filter (\<lambda>x. key k = key x) (arraySort compareFn xs) = filter (\<lambda>x. key k = key x) xs" for k
      using c(3) [of "key k"] by (simp add: eq_commute)
  qed
  then show ?thesis
    by simp
qed

lemma comparePubDate_time:
  "hasTime getTime a \<Longrightarrow> hasTime getTime b \<Longrightarrow>
   comparePubDate getTime a b = timeOf getTime b - timeOf getTime a"
  by (auto simp: hasTime_def comparePubDate_def timeOf_def split: option.splits)

lemma trendingArticles_dated:
  assumes "sortContract arraySort"
    and "\<forall>a \<in> set (concat fetched). hasTime getTime a"
  shows "trendingArticles arraySort getTime fetched =
     take 10 (sort_key (\<lambda>a. - timeOf getTime a) (uniqueArticles (concat fetched)))"
proof -
  have "comparePubDate getTime a b = (- timeOf getTime a) - (- timeOf getTime b)"
    if "a \<in> set (uniqueArticles (concat fetched))" "b \<in> set (uniqueArticles (concat fetched))"
    for a b
  proof -
    from that uniqueArticles_last [of "concat fetched"]
    have "a \<in> set (concat fetched)" "b \<in> set (concat fetched)"
      by blast+
    with assms(2) have "hasTime getTime a" "hasTime getTime b"
      by blast+
    then show ?thesis
      by (simp add: comparePubDate_time)
  qed
  then have "\<forall>a \<in> set (uniqueArticles (concat fetched)).
      \<forall>b \<in> set (uniqueArticles (concat fetched)).
        comparePubDate getTime a b = (- timeOf getTime a) - (- timeOf getTime b)"
    by blast
  from sortContract_sort_key [OF assms(1) this] show ?thesis
    by (simp add: trendingArticles_def)
qed


section \<open>The example sort meets the contract\<close>

lemma countRun_sorted:
  assumes keyed: "\<forall>a \<in> S. \<forall>b \<in> S. compareFn a b = key a - (key b :: int)"
    and R: "R = (\<lambda>a b. if isDescending then key b < key a else key a \<le> key b)"
  shows "previousElement \<in> S \<Longrightarrow> set rest \<subseteq> S \<Longrightarrow>
     sorted_wrt R (previousElement #
       take (countRun compareFn isDescending previousElement rest) rest)"
proof (induction rest arbitrary: previousElement)
  case Nil
  then show ?case by simp
next
  case (Cons currentElement rest)
  from Cons.prems keyed have c: "compareFn currentElement previousElement =
      key currentElement - key previousElement"
    by simp
  show ?case
  proof (cases "if isDescending then compareFn currentElement previousElement \<ge> 0
                else compareFn currentElement previousElement < 0")
    case True
    then show ?thesis
      by simp
  next
    case False
    then have step: "R previousElement currentElement"
      unfolding R c by (simp split: if_splits)
    from Cons.prems have ih: "sorted_wrt R (currentElement #
        take (countRun compareFn isDescending currentElement rest) rest)"
      by (intro Cons.IH) simp_all
    have "R previousElement y" if "R currentElement y" for y
      using step that unfolding R by (simp split: if_splits)
    with ih step have "sorted_wrt R (previousElement # currentElement #
        take (countRun compareFn isDescending currentElement rest) rest)"
      by auto
    with False show ?thesis
      by simp
  qed
qed

lemma filter_key_distinct:
  "distinct (map key ys) \<Longrightarrow> length (filter (\<lambda>a. key a = k) ys) \<le> 1"
proof (induction ys)
  case Nil
  then show ?case by simp
next
  case (Cons y ys)
  show ?case
  proof (cases "key y = k")
    case True
    from Cons.prems have "key y \<notin> key ` set ys"
      by simp
    then have "\<forall>x \<in> set ys. key x \<noteq> key y"
      by (metis imageI)
    with True have "filter (\<lambda>a. key a = k) ys = []"
      by (simp add: filter_empty_conv)
    with True show ?thesis
      by simp
  next
    case False
    with Cons show ?thesis
      by simp
  qed
qed

lemma sorted_wrt_distinct_keys:
  "sorted_wrt (\<lambda>a b. key a \<noteq> key b) ys \<Longrightarrow> distinct (map key ys)"
  by (induction ys) auto

lemma rev_short: "length ys \<le> 1 \<Longrightarrow> rev ys = ys"
  by (cases ys) auto

lemma countAndMakeRun_props:
  assumes keyed: "\<forall>a \<in> set xs. \<forall>b \<in> set xs. compareFn a b = key a - (key b :: int)"
    and made: "countAndMakeRun compareFn xs = (run, rest)"
  shows "sorted (map key run) \<and> mset run + mset rest = mset xs \<and>
     (\<forall>k. filter (\<lambda>a. key a = k) (run @ rest) = filter (\<lambda>a. key a = k) xs)"
proof (cases xs)
  case Nil
  with made show ?thesis
    by simp
next
  case (Cons elementHigh tail)
  show ?thesis
  proof (cases tail)
    case Nil
    with Cons made show ?thesis
      by auto
  next
    case inner: (Cons elementLow rest0)
    define isDescending where "isDescending \<longleftrightarrow> compareFn elementLow elementHigh < 0"
    define n where "n = countRun compareFn isDescending elementLow rest0"
    define pre where "pre = elementHigh # elementLow # take n rest0"
    define R where "R = (\<lambda>a b. if isDescending then key b < key a else key a \<le> key b)"
    have xs: "xs = elementHigh # elementLow # rest0"
      by (simp add: Cons inner)
    have split: "pre @ drop n rest0 = xs"
      by (simp add: pre_def xs)
    have "take (2 + n) xs = pre" "drop (2 + n) xs = drop n rest0"
      by (simp_all add: xs pre_def)
    with made have run: "run = (if isDescending then rev pre else pre)" and rest: "rest = drop n rest0"
      unfolding xs countAndMakeRun.simps Let_def isDescending_def [symmetric] n_def [symmetric]
      by (simp_all only: prod.inject xs [symmetric])
    from keyed have c: "compareFn elementLow elementHigh = key elementLow - key elementHigh"
      by (simp add: xs)
    have first: "R elementHigh elementLow"
      unfolding R_def isDescending_def c by simp
    have tail_sorted: "sorted_wrt R (elementLow # take n rest0)"
      unfolding n_def
      by (rule countRun_sorted [where S = "set xs", OF keyed R_def]) (auto simp: xs)
    have "R elementHigh y" if "R elementLow y" for y
      using first that unfolding R_def by (simp split: if_splits)
    with first tail_sorted have pre_sorted: "sorted_wrt R pre"
      by (auto simp: pre_def)
    have m: "mset run + mset rest = mset xs"
      unfolding run rest split [symmetric] by simp
    show ?thesis
    proof (cases isDescending)
      case False
      with pre_sorted have "sorted (map key pre)"
        by (simp add: R_def sorted_map)
      moreover from False have "run @ rest = xs"
        by (simp add: run rest split)
      ultimately show ?thesis
        using False m by (simp add: run)
    next
      case True
      with pre_sorted have desc: "sorted_wrt (\<lambda>a b. key b < key a) pre"
        by (simp add: R_def)
      then have "sorted_wrt (\<lambda>a b. key a < key b) (rev pre)"
        by (simp add: sorted_wrt_rev)
      then have "sorted_wrt (\<lambda>a b. key a \<le> key b) (rev pre)"
        by (rule sorted_wrt_mono_rel [rotated]) simp
      then have s: "sorted (map key (rev pre))"
        by (simp add: sorted_map)
      from desc have "sorted_wrt (\<lambda>a b. key a \<noteq> key b) pre"
        by (rule sorted_wrt_mono_rel [rotated]) simp
      then have "distinct (map key pre)"
        by (rule sorted_wrt_distinct_keys)
      then have "rev (filter (\<lambda>a. key a = k) pre) = filter (\<lambda>a. key a = k) pre" for k
        by (intro rev_short filter_key_distinct)
      then have "filter (\<lambda>a. key a = k) (rev pre @ rest) = filter (\<lambda>a. key a = k) xs" for k
        unfolding split [symmetric] rest by (simp add: rev_filter [symmetric])
      with True s m show ?thesis
        by (simp add: run)
    qed
  qed
qed

text \<open>
  In a sorted array the binary search ends after the last element that does not come
  after the pivot.
\<close>

lemma binarySearch_place:
  "\<forall>a \<in> insert pivot (set ws). \<forall>b \<in> insert pivot (set ws).
      compareFn a b = key a - (key b :: int) \<Longrightarrow>
   sorted (map key ws) \<Longrightarrow>
   left \<le> right \<Longrightarrow> right \<le> length ws \<Longrightarrow>
   \<forall>i < left. key (ws ! i) \<le> key pivot \<Longrightarrow>
   \<forall>i. right \<le> i \<and> i < length ws \<longrightarrow> key pivot < key (ws ! i) \<Longrightarrow>
   binarySearch compareFn pivot ws left right \<le> length ws \<and>
   (\<forall>i < binarySearch compareFn pivot ws left right. key (ws ! i) \<le> key pivot) \<and>
   (\<forall>i. binarySearch compareFn pivot ws left right \<le> i \<and> i < length ws \<longrightarrow>
        key pivot < key (ws ! i))"
proof (induction compareFn pivot ws left right rule: binarySearch.induct)
  case (1 compareFn pivot ws left right)
  show ?case
  proof (cases "left < right")
    case False
    with "1.prems"(3,4,5,6) show ?thesis
      by (subst (1 2 3) binarySearch.simps) auto
  next
    case True
    define mid where "mid = left + (right - left) div 2"
    from True have mid: "left \<le> mid" "mid < right"
      by (simp_all add: mid_def)
    with "1.prems"(4) have len: "mid < length ws"
      by simp
    from len have "ws ! mid \<in> set ws"
      by simp
    then have "ws ! mid \<in> insert pivot (set ws)"
      by simp
    with "1.prems"(1) have c: "compareFn pivot (ws ! mid) = key pivot - key (ws ! mid)"
      by (metis insertI1)
    have mono: "key (ws ! i) \<le> key (ws ! j)" if "i \<le> j" "j < length ws" for i j
      using "1.prems"(2) that by (simp add: sorted_map sorted_wrt_iff_nth_less le_eq_less_or_eq) blast
    show ?thesis
    proof (cases "compareFn pivot (ws ! mid) < 0")
      case lt: True
      have up: "\<forall>i. mid \<le> i \<and> i < length ws \<longrightarrow> key pivot < key (ws ! i)"
      proof (intro allI impI)
        fix i
        assume i: "mid \<le> i \<and> i < length ws"
        from lt c have "key pivot < key (ws ! mid)"
          by simp
        also from i have "key (ws ! mid) \<le> key (ws ! i)"
          by (intro mono) simp_all
        finally show "key pivot < key (ws ! i)" .
      qed
      have eq: "binarySearch compareFn pivot ws left right = binarySearch compareFn pivot ws left mid"
        using True lt by (subst binarySearch.simps) (simp add: mid_def Let_def)
      from "1.IH"(1) [OF True mid_def lt "1.prems"(1,2) mid(1) _ "1.prems"(5) up] len
      show ?thesis
        unfolding eq by simp
    next
      case ge: False
      have low: "\<forall>i < mid + 1. key (ws ! i) \<le> key pivot"
      proof (intro allI impI)
        fix i
        assume "i < mid + 1"
        then have "key (ws ! i) \<le> key (ws ! mid)"
          using len by (intro mono) simp_all
        also from ge c have "key (ws ! mid) \<le> key pivot"
          by simp
        finally show "key (ws ! i) \<le> key pivot" .
      qed
      have eq: "binarySearch compareFn pivot ws left right =
          binarySearch compareFn pivot ws (mid + 1) right"
        using True ge by (subst binarySearch.simps) (simp add: mid_def Let_def)
      from mid have "mid + 1 \<le> right"
        by simp
      from "1.IH"(2) [OF True mid_def ge "1.prems"(1,2) this "1.prems"(4) low "1.prems"(6)]
      show ?thesis
        unfolding eq by simp
    qed
  qed
qed

lemma binaryInsert_props:
  assumes keyed: "\<forall>a \<in> insert pivot (set ws). \<forall>b \<in> insert pivot (set ws).
      compareFn a b = key a - (key b :: int)"
    and srt: "sorted (map key ws)"
  shows "sorted (map key (binaryInsert compareFn ws pivot)) \<and>
     mset (binaryInsert compareFn ws pivot) = mset ws + {#pivot#} \<and>
     (\<forall>k. filter (\<lambda>a. key a = k) (binaryInsert compareFn ws pivot) =
           filter (\<lambda>a. key a = k) (ws @ [pivot]))"
proof -
  define left where "left = binarySearch compareFn pivot ws 0 (length ws)"
  from binarySearch_place [OF keyed srt, of 0 "length ws"]
  have place: "left \<le> length ws" "\<forall>i < left. key (ws ! i) \<le> key pivot"
    "\<forall>i. left \<le> i \<and> i < length ws \<longrightarrow> key pivot < key (ws ! i)"
    unfolding left_def by simp_all
  have r: "binaryInsert compareFn ws pivot = take left ws @ pivot # drop left ws"
    by (simp add: binaryInsert_def left_def Let_def)
  have before: "key a \<le> key pivot" if "a \<in> set (take left ws)" for a
    using that place(1,2) by (auto simp: in_set_conv_nth)
  have after: "key pivot < key a" if "a \<in> set (drop left ws)" for a
  proof -
    from that obtain i where "i < length ws - left" "a = ws ! (left + i)"
      by (auto simp: in_set_conv_nth)
    with place(3) show ?thesis
      by simp
  qed
  have "sorted (map key (take left ws))" "sorted (map key (drop left ws))"
    using srt by (simp_all add: sorted_map sorted_wrt_take sorted_wrt_drop)
  with before after have 1: "sorted (map key (take left ws @ pivot # drop left ws))"
    by (force simp: sorted_append)
  have 2: "mset (take left ws @ pivot # drop left ws) = mset ws + {#pivot#}"
    by (metis append_take_drop_id mset.simps(2) mset_append union_mset_add_mset_right
        add_mset_add_single)
  have 3: "filter (\<lambda>a. key a = k) (take left ws @ pivot # drop left ws) =
      filter (\<lambda>a. key a = k) (ws @ [pivot])" for k
  proof (cases "k = key pivot")
    case True
    have "key a \<noteq> k" if "a \<in> set (drop left ws)" for a
      using after [OF that] True by simp
    then have "filter (\<lambda>a. key a = k) (drop left ws) = []"
      by (simp add: filter_empty_conv)
    then have "filter (\<lambda>a. key a = k) ws = filter (\<lambda>a. key a = k) (take left ws)"
      by (metis append_Nil2 append_take_drop_id filter_append)
    with True \<open>filter (\<lambda>a. key a = k) (drop left ws) = []\<close> show ?thesis
      by simp
  next
    case False
    have "filter (\<lambda>a. key a = k) ws =
        filter (\<lambda>a. key a = k) (take left ws) @ filter (\<lambda>a. key a = k) (drop left ws)"
      by (metis append_take_drop_id filter_append)
    with False show ?thesis
      by simp
  qed
  from 1 2 3 show ?thesis
    unfolding r by blast
qed

lemma foldl_binaryInsert_props:
  assumes keyed: "\<forall>a \<in> S. \<forall>b \<in> S. compareFn a b = key a - (key b :: int)"
  shows "set run \<subseteq> S \<Longrightarrow> set rest \<subseteq> S \<Longrightarrow> sorted (map key run) \<Longrightarrow>
     sorted (map key (foldl (binaryInsert compareFn) run rest)) \<and>
     mset (foldl (binaryInsert compareFn) run rest) = mset run + mset rest \<and>
     (\<forall>k. filter (\<lambda>a. key a = k) (foldl (binaryInsert compareFn) run rest) =
           filter (\<lambda>a. key a = k) (run @ rest))"
proof (induction rest arbitrary: run)
  case Nil
  then show ?case by simp
next
  case (Cons pivot rest)
  from Cons.prems keyed have k: "\<forall>a \<in> insert pivot (set run). \<forall>b \<in> insert pivot (set run).
      compareFn a b = key a - key b"
    by auto
  from binaryInsert_props [OF k Cons.prems(3)]
  have ins: "sorted (map key (binaryInsert compareFn run pivot))"
    "mset (binaryInsert compareFn run pivot) = mset run + {#pivot#}"
    "\<And>k. filter (\<lambda>a. key a = k) (binaryInsert compareFn run pivot) =
          filter (\<lambda>a. key a = k) (run @ [pivot])"
    by blast+
  from ins(2) have "set (binaryInsert compareFn run pivot) = insert pivot (set run)"
    by (metis add_mset_add_single set_mset_add_mset_insert set_mset_mset)
  with Cons.prems have sub: "set (binaryInsert compareFn run pivot) \<subseteq> S"
    by simp
  from Cons.prems have "set rest \<subseteq> S"
    by simp
  from Cons.IH [OF sub this ins(1)] ins(2,3) show ?case
    by simp
qed

lemma ex_arraySort_contract: "sortContract ex_arraySort"
  unfolding sortContract_def
proof (intro allI impI)
  fix compareFn :: "'a \<Rightarrow> 'a \<Rightarrow> int" and key xs
  assume keyed: "\<forall>a \<in> set xs. \<forall>b \<in> set xs. compareFn a b = key a - key b"
  show "mset (ex_arraySort compareFn xs) = mset xs \<and>
     sorted (map key (ex_arraySort compareFn xs)) \<and>
     (\<forall>k. filter (\<lambda>a. key a = k) (ex_arraySort compareFn xs) = filter (\<lambda>a. key a = k) xs)"
  proof (cases "length xs < 2")
    case True
    then have "xs = [] \<or> (\<exists>x. xs = [x])"
      by (cases xs) (auto simp: length_Suc_conv)
    with True show ?thesis
      by (auto simp: ex_arraySort_def)
  next
    case False
    obtain run rest where made: "countAndMakeRun compareFn xs = (run, rest)"
      by (cases "countAndMakeRun compareFn xs")
    from countAndMakeRun_props [OF keyed made]
    have p: "sorted (map key run)" "mset run + mset rest = mset xs"
      "\<And>k. filter (\<lambda>a. key a = k) (run @ rest) = filter (\<lambda>a. key a = k) xs"
      by blast+
    from p(2) have "set run \<union> set rest = set xs"
      by (metis set_mset_mset set_mset_union)
    then have sub: "set run \<subseteq> set xs" "set rest \<subseteq> set xs"
      by auto
    from foldl_binaryInsert_props [OF keyed sub p(1)] p(2,3) False made show ?thesis
      by (simp add: ex_arraySort_def)
  qed
qed

section \<open>The merged list\<close>

lemma ex_trending:
  "trendingArticles ex_arraySort ex_getTime ex_fetched =
     [ex_article ''b'' ''2024-01-03'', ex_article ''a'' ''2024-01-01'']"
  by (simp add: trendingArticles_def uniqueArticles_def newMap_def mapValues_def ex_arraySort_def
      comparePubDate_def ex_fetched_def ex_article_def ex_getTime_def)

lemma ex_trending_undated:
  "trendingArticles ex_arraySort ex_getTime ex_undated =
     [ex_article ''a'' ''2024-01-01'', \<lparr>link = ''u'', pubDate = None, image_url = None\<rparr>,
      ex_article ''b'' ''2024-01-03'']"
  by (simp add: trendingArticles_def uniqueArticles_def newMap_def mapValues_def ex_arraySort_def
      comparePubDate_def ex_undated_def ex_article_def ex_getTime_def)

lemma ex_fetched_dated: "\<forall>a \<in> set (concat ex_fetched). hasTime ex_getTime a"
  by (simp add: ex_fetched_def ex_article_def hasTime_def ex_getTime_def)

text \<open>
  Claim C1, as amended.  The deduplication keeps one article for every link, at the
  place of the first article with that link, and it is the last article with that link
  (the last occurrence wins).  When every fetched article has a publish date that
  parses, the compare function is the difference of the publish times, so under the
  contract of the sort the merged list is the first ten of the deduplicated list in
  descending order of publish time, articles of equal time in the order the
  deduplication left them; it has no two articles with the same link and at most ten
  entries, each the last fetched article of its link.
\<close>

theorem trending_merge:
  "uniqueArticles (concat fetched) =
     map (\<lambda>l. last (filter (\<lambda>a. link a = l) (concat fetched)))
       (firstOccurrences (map link (concat fetched))) \<and>
   distinct (map link (uniqueArticles (concat fetched))) \<and>
   (sortContract arraySort \<and> (\<forall>a \<in> set (concat fetched). hasTime getTime a) \<longrightarrow>
      trendingArticles arraySort getTime fetched =
        take 10 (sort_key (\<lambda>a. - timeOf getTime a) (uniqueArticles (concat fetched))) \<and>
      sorted_wrt (\<lambda>a b. timeOf getTime b \<le> timeOf getTime a)
        (trendingArticles arraySort getTime fetched) \<and>
      (\<forall>k. filter (\<lambda>a. timeOf getTime a = k)
              (sort_key (\<lambda>a. - timeOf getTime a) (uniqueArticles (concat fetched))) =
            filter (\<lambda>a. timeOf getTime a = k) (uniqueArticles (concat fetched))) \<and>
      distinct (map link (trendingArticles arraySort getTime fetched)) \<and>
      length (trendingArticles arraySort getTime fetched) \<le> 10 \<and>
      (\<forall>a \<in> set (trendingArticles arraySort getTime fetched).
         a \<in> set (concat fetched) \<and>
         a = last (filter (\<lambda>b. link b = link a) (concat fetched))))"
proof -
  define all where "all = concat fetched"
  define srt where "srt = sort_key (\<lambda>a. - timeOf getTime a) (uniqueArticles all)"
  note u = uniqueArticles_last [of all]
  have 1: "uniqueArticles all =
      map (\<lambda>l. last (filter (\<lambda>a. link a = l) all)) (firstOccurrences (map link all))"
    by (rule uniqueArticles_eq)
  have 2: "distinct (map link (uniqueArticles all))"
    using u by blast
  have sorted_part:
    "trendingArticles arraySort getTime fetched = take 10 srt \<and>
     sorted_wrt (\<lambda>a b. timeOf getTime b \<le> timeOf getTime a)
       (trendingArticles arraySort getTime fetched) \<and>
     (\<forall>k. filter (\<lambda>a. timeOf getTime a = k) srt =
           filter (\<lambda>a. timeOf getTime a = k) (uniqueArticles all)) \<and>
     distinct (map link (trendingArticles arraySort getTime fetched)) \<and>
     length (trendingArticles arraySort getTime fetched) \<le> 10 \<and>
     (\<forall>a \<in> set (trendingArticles arraySort getTime fetched).
        a \<in> set all \<and> a = last (filter (\<lambda>b. link b = link a) all))"
    if c: "sortContract arraySort" and dated: "\<forall>a \<in> set all. hasTime getTime a"
  proof -
    have r: "trendingArticles arraySort getTime fetched = take 10 srt"
      using trendingArticles_dated [OF c dated [unfolded all_def]]
      by (simp add: srt_def all_def)
    have "sorted (map (\<lambda>a. - timeOf getTime a) srt)"
      by (simp add: srt_def)
    then have "sorted_wrt (\<lambda>a b. timeOf getTime b \<le> timeOf getTime a) srt"
      by (simp add: sorted_map)
    then have a: "sorted_wrt (\<lambda>a b. timeOf getTime b \<le> timeOf getTime a) (take 10 srt)"
      by (rule sorted_wrt_take)
    have b: "filter (\<lambda>a. timeOf getTime a = k) srt =
        filter (\<lambda>a. timeOf getTime a = k) (uniqueArticles all)" for k
      using sort_key_stable [of "\<lambda>a. - timeOf getTime a" "- k" "uniqueArticles all"]
      by (simp add: srt_def)
    have "mset (map link srt) = mset (map link (uniqueArticles all))"
      by (simp add: srt_def)
    with 2 have "distinct (map link srt)"
      by (metis mset_eq_imp_distinct_iff)
    then have d: "distinct (map link (take 10 srt))"
      by (simp add: take_map [symmetric] distinct_take)
    have e: "a \<in> set all \<and> a = last (filter (\<lambda>b. link b = link a) all)"
      if "a \<in> set (take 10 srt)" for a
    proof -
      from that have "a \<in> set srt"
        by (rule in_set_takeD)
      then have "a \<in> set (uniqueArticles all)"
        by (simp add: srt_def)
      with u show ?thesis
        by blast
    qed
    from a b d e show ?thesis
      unfolding r by simp
  qed
  from 1 2 sorted_part show ?thesis
    unfolding all_def srt_def by blast
qed

text \<open>
  The three articles of the example, merged by the example sort: the article \<open>b\<close> and
  then the second article with the link \<open>a\<close>, newest first.
\<close>

theorem trending_merge_witness:
  "sortContract (ex_arraySort :: (NewsDataArticle \<Rightarrow> NewsDataArticle \<Rightarrow> int) \<Rightarrow> _) \<and>
   list_all (hasTime ex_getTime) (concat ex_fetched) \<and>
   uniqueArticles (concat ex_fetched) =
     [ex_article ''a'' ''2024-01-01'', ex_article ''b'' ''2024-01-03''] \<and>
   trendingArticles ex_arraySort ex_getTime ex_fetched =
     [ex_article ''b'' ''2024-01-03'', ex_article ''a'' ''2024-01-01''] \<and>
   take 10 (sort_key (\<lambda>a. - timeOf ex_getTime a) (uniqueArticles (concat ex_fetched))) =
     [ex_article ''b'' ''2024-01-03'', ex_article ''a'' ''2024-01-01''] \<and>
   length (trendingArticles ex_arraySort ex_getTime ex_fetched) = 2 \<and>
   distinct (map link (trendingArticles ex_arraySort ex_getTime ex_fetched)) \<and>
   sorted_wrt (\<lambda>a b. timeOf ex_getTime b \<le> timeOf ex_getTime a)
     (trendingArticles ex_arraySort ex_getTime ex_fetched)"
proof -
  have c: "sortContract (ex_arraySort :: (NewsDataArticle \<Rightarrow> NewsDataArticle \<Rightarrow> int) \<Rightarrow> _)"
    by (rule ex_arraySort_contract)
  from trending_merge [of ex_fetched ex_arraySort ex_getTime] c ex_fetched_dated
  have t: "uniqueArticles (concat ex_fetched) =
      map (\<lambda>l. last (filter (\<lambda>a. link a = l) (concat ex_fetched)))
        (firstOccurrences (map link (concat ex_fetched)))"
    "trendingArticles ex_arraySort ex_getTime ex_fetched =
      take 10 (sort_key (\<lambda>a. - timeOf ex_getTime a) (uniqueArticles (concat ex_fetched)))"
    "distinct (map link (trendingArticles ex_arraySort ex_getTime ex_fetched))"
    "sorted_wrt (\<lambda>a b. timeOf ex_getTime b \<le> timeOf ex_getTime a)
       (trendingArticles ex_arraySort ex_getTime ex_fetched)"
    by blast+
  from t(1) have u: "uniqueArticles (concat ex_fetched) =
      [ex_article ''a'' ''2024-01-01'', ex_article ''b'' ''2024-01-03'']"
    by (simp add: ex_fetched_def ex_article_def)
  from t(2) have s: "take 10 (sort_key (\<lambda>a. - timeOf ex_getTime a) (uniqueArticles (concat ex_fetched))) =
      [ex_article ''b'' ''2024-01-03'', ex_article ''a'' ''2024-01-01'']"
    by (simp add: ex_trending)
  from ex_fetched_dated have "list_all (hasTime ex_getTime) (concat ex_fetched)"
    by (simp only: list_all_iff)
  with c u s t(3,4) show ?thesis
    by (simp add: ex_trending)
qed

text \<open>
  The claim as stated keeps the first occurrence of a link and sorts every merged list
  by publish time.  For the three articles of the example the first article with the
  link \<open>a\<close>, the one dated 2024-01-02, is dropped and the second is kept.  And when the
  second of three articles has no publish date, the compare function returns 0 for
  every pair the sort asks for, and the list stays as it was, the newest article last.
\<close>

theorem trending_merge_counterexample:
  "concat ex_fetched =
     [ex_article ''a'' ''2024-01-02'', ex_article ''a'' ''2024-01-01'',
      ex_article ''b'' ''2024-01-03''] \<and>
   trendingArticles ex_arraySort ex_getTime ex_fetched \<noteq>
     [ex_article ''b'' ''2024-01-03'', ex_article ''a'' ''2024-01-02''] \<and>
   ex_article ''a'' ''2024-01-02'' \<notin> set (trendingArticles ex_arraySort ex_getTime ex_fetched) \<and>
   ex_article ''a'' ''2024-01-01'' \<in> set (trendingArticles ex_arraySort ex_getTime ex_fetched) \<and>
   trendingArticles ex_arraySort ex_getTime ex_undated =
     [ex_article ''a'' ''2024-01-01'', \<lparr>link = ''u'', pubDate = None, image_url = None\<rparr>,
      ex_article ''b'' ''2024-01-03''] \<and>
   timeOf ex_getTime (ex_article ''a'' ''2024-01-01'') <
     timeOf ex_getTime (ex_article ''b'' ''2024-01-03'') \<and>
   \<not> sorted_wrt (\<lambda>a b. timeOf ex_getTime b \<le> timeOf ex_getTime a)
       (trendingArticles ex_arraySort ex_getTime ex_undated)"
  by (simp add: ex_trending ex_trending_undated)
    (simp add: ex_fetched_def ex_article_def timeOf_def ex_getTime_def)

section \<open>The update primitive, seen through the first task of an id\<close>

lemma updateTask_used [simp]: "usedArticleLinks (updateTask tid u s) = usedArticleLinks s"
  by (simp add: updateTask_def pushUpdate_def Let_def split: option.splits)

lemma updateTask_collected [simp]: "collectedData (updateTask tid u s) = collectedData s"
  by (simp add: updateTask_def pushUpdate_def Let_def split: option.splits)

lemma findIndex_find:
  "findIndex p xs = (case List.find p xs of None \<Rightarrow> None | Some x \<Rightarrow> findIndex p xs) \<and>
   (List.find p xs = None \<longleftrightarrow> findIndex p xs = None) \<and>
   (\<forall>i. findIndex p xs = Some i \<longrightarrow> List.find p xs = Some (xs ! i))"
  by (induction xs) (auto split: option.splits)

lemma find_list_update:
  assumes "\<And>t. task_id (f t) = task_id t"
  shows "List.find (\<lambda>t. task_id t = tid')
           (case findIndex (\<lambda>t. task_id t = tid) ts of
              None \<Rightarrow> ts
            | Some i \<Rightarrow> ts[i := f (ts ! i)]) =
         (if tid' = tid then map_option f (List.find (\<lambda>t. task_id t = tid) ts)
          else List.find (\<lambda>t. task_id t = tid') ts)"
proof (induction ts)
  case Nil
  then show ?case by simp
next
  case (Cons t ts)
  show ?case
  proof (cases "task_id t = tid")
    case True
    then show ?thesis
      by (simp add: assms)
  next
    case False
    with Cons show ?thesis
      by (cases "findIndex (\<lambda>t. task_id t = tid) ts") (auto simp: assms split: if_splits)
  qed
qed

lemma spread_id: "u_id u = None \<Longrightarrow> task_id (spread t u) = task_id t"
  by (simp add: spread_def)

lemma tasks_updateTask:
  "tasks (updateTask tid u s) =
     (case findIndex (\<lambda>t. task_id t = tid) (tasks s) of
        None \<Rightarrow> tasks s
      | Some i \<Rightarrow> (tasks s)[i := spread (tasks s ! i) u])"
  by (simp add: updateTask_def pushUpdate_def Let_def split: option.splits)

lemma taskOf_updateTask:
  "u_id u = None \<Longrightarrow>
   taskOf (updateTask tid u s) tid' =
     (if tid' = tid then map_option (\<lambda>t. spread t u) (taskOf s tid) else taskOf s tid')"
  unfolding taskOf_def tasks_updateTask
  by (rule find_list_update) (simp add: spread_id)

lemma stream_updateTask:
  "stream (updateTask tid u s) =
     stream s @ (case taskOf s tid of None \<Rightarrow> [] | Some t \<Rightarrow> [spread t u])"
proof (cases "findIndex (\<lambda>t. task_id t = tid) (tasks s)")
  case None
  with findIndex_find [of "\<lambda>t. task_id t = tid" "tasks s"]
  have "List.find (\<lambda>t. task_id t = tid) (tasks s) = None"
    by simp
  with None show ?thesis
    by (simp add: updateTask_def taskOf_def)
next
  case (Some i)
  with findIndex_find [of "\<lambda>t. task_id t = tid" "tasks s"]
  have "List.find (\<lambda>t. task_id t = tid) (tasks s) = Some (tasks s ! i)"
    by simp
  moreover from findIndex_Some [OF Some] have "i < length (tasks s)"
    by simp
  ultimately show ?thesis
    using Some by (simp add: updateTask_def pushUpdate_def taskOf_def Let_def)
qed

lemma update_ids [simp]:
  "u_id (statusUpdate st) = None" "u_id (errorUpdate m) = None" "u_id (doneUpdate r) = None"
  by (simp_all add: statusUpdate_def errorUpdate_def doneUpdate_def no_updates_def)

lemma spread_status [simp]:
  "status (spread t (statusUpdate st)) = st"
  "status (spread t (errorUpdate m)) = ERROR"
  "error (spread t (errorUpdate m)) = Some m"
  "status (spread t (doneUpdate r)) = DONE"
  "task_id (spread t (statusUpdate st)) = task_id t"
  "task_id (spread t (errorUpdate m)) = task_id t"
  "task_id (spread t (doneUpdate r)) = task_id t"
  by (simp_all add: spread_def statusUpdate_def errorUpdate_def doneUpdate_def no_updates_def)

lemma taskOf_id: "taskOf s tid = Some t \<Longrightarrow> task_id t = tid"
  unfolding taskOf_def by (auto simp: find_Some_iff)

section \<open>Phase 1 and the used links\<close>

lemma findAndAnalyze_member:
  "findAndAnalyzeBestArticleFromList E articles = Inr (Some found) \<Longrightarrow> snd found \<in> set articles"
  by (auto simp: findAndAnalyzeBestArticleFromList_def split: sum.splits if_splits option.splits)

text \<open>
  One category either leaves the collected list and the used links as they are, or
  collects one article whose link was not used before and adds exactly that link.
\<close>

lemma gatherCategory_links:
  "(collectedData (gatherCategory E s c) = collectedData s \<and>
    usedArticleLinks (gatherCategory E s c) = usedArticleLinks s) \<or>
   (\<exists>d. collectedData (gatherCategory E s c) = collectedData s @ [d] \<and>
        c_taskId d = apiValue c \<and>
        link (c_article d) \<notin> usedArticleLinks s \<and>
        usedArticleLinks (gatherCategory E s c) = insert (link (c_article d)) (usedArticleLinks s))"
proof (cases "fetchLatestBangladeshiNews E (apiValue c)")
  case (Inl err)
  then show ?thesis
    by (simp add: gatherCategory_def taskFailed_def Let_def)
next
  case (Inr allArticles)
  define unused where "unused = filter (\<lambda>article. link article \<notin> usedArticleLinks s) allArticles"
  show ?thesis
  proof (cases "findAndAnalyzeBestArticleFromList E unused")
    case (Inl err)
    with Inr show ?thesis
      by (simp add: gatherCategory_def taskFailed_def Let_def unused_def)
  next
    case found: (Inr r)
    show ?thesis
    proof (cases r)
      case None
      with Inr found show ?thesis
        by (simp add: gatherCategory_def taskFailed_def Let_def unused_def)
    next
      case (Some f)
      with found have "snd f \<in> set unused"
        by (simp add: findAndAnalyze_member)
      then have ne: "unused \<noteq> []"
        by auto
      from \<open>snd f \<in> set unused\<close> have new: "link (snd f) \<notin> usedArticleLinks s"
        by (simp add: unused_def)
      from Inr found Some ne new show ?thesis
        by (simp add: gatherCategory_def taskFailed_def Let_def unused_def)
    qed
  qed
qed

lemma phase1_links:
  "\<exists>new. collectedData (foldl (gatherCategory E) s cats) = collectedData s @ new \<and>
         usedArticleLinks (foldl (gatherCategory E) s cats) =
           usedArticleLinks s \<union> set (map (\<lambda>d. link (c_article d)) new) \<and>
         distinct (map (\<lambda>d. link (c_article d)) new) \<and>
         set (map (\<lambda>d. link (c_article d)) new) \<inter> usedArticleLinks s = {} \<and>
         set (map c_taskId new) \<subseteq> set (map apiValue cats)"
proof (induction cats arbitrary: s)
  case Nil
  then show ?case by simp
next
  case (Cons c cats)
  define s1 where "s1 = gatherCategory E s c"
  from Cons.IH [of s1] obtain new where new:
    "collectedData (foldl (gatherCategory E) s1 cats) = collectedData s1 @ new"
    "usedArticleLinks (foldl (gatherCategory E) s1 cats) =
       usedArticleLinks s1 \<union> set (map (\<lambda>d. link (c_article d)) new)"
    "distinct (map (\<lambda>d. link (c_article d)) new)"
    "set (map (\<lambda>d. link (c_article d)) new) \<inter> usedArticleLinks s1 = {}"
    "set (map c_taskId new) \<subseteq> set (map apiValue cats)"
    by blast
  from gatherCategory_links [of E s c]
  consider (same) "collectedData s1 = collectedData s" "usedArticleLinks s1 = usedArticleLinks s"
    | (more) d where "collectedData s1 = collectedData s @ [d]" "c_taskId d = apiValue c"
        "link (c_article d) \<notin> usedArticleLinks s"
        "usedArticleLinks s1 = insert (link (c_article d)) (usedArticleLinks s)"
    unfolding s1_def by blast
  then show ?case
  proof cases
    case same
    with new show ?thesis
      unfolding foldl_Cons s1_def [symmetric]
      by (intro exI [of _ new]) auto
  next
    case more
    with new show ?thesis
      unfolding foldl_Cons s1_def [symmetric]
      by (intro exI [of _ "d # new"]) auto
  qed
qed

section \<open>Failure isolation\<close>

lemma taskOf_fields [simp]:
  "taskOf (s\<lparr>usedArticleLinks := a\<rparr>) = taskOf s"
  "taskOf (s\<lparr>collectedData := b\<rparr>) = taskOf s"
  by (simp_all add: taskOf_def fun_eq_iff)

lemma taskFailed_task:
  "taskOf (taskFailed tid err s) tid' =
     (if tid' = tid then map_option (\<lambda>t. spread t (errorUpdate (errorMessage err))) (taskOf s tid)
      else taskOf s tid')"
  by (simp add: taskFailed_def taskOf_updateTask)

lemma taskFailed_fields [simp]:
  "usedArticleLinks (taskFailed tid err s) = usedArticleLinks s"
  "collectedData (taskFailed tid err s) = collectedData s"
  by (simp_all add: taskFailed_def)

lemma taskFailed_stream:
  "stream (taskFailed tid err s) =
     stream s @ (case taskOf s tid of None \<Rightarrow> []
                 | Some t \<Rightarrow> [spread t (errorUpdate (errorMessage err))])"
  by (simp add: taskFailed_def stream_updateTask)

text \<open>The outcome of the \<^verbatim>\<open>try\<close> block of phase 1, by itself.\<close>

lemma gatherCategory_cases:
  obtains (failed) err where
      "gatherCategory E s c =
         taskFailed (apiValue c) err (updateTask (apiValue c) (statusUpdate GATHERING) s)"
  | (gathered) found where
      "gatherCategory E s c =
         updateTask (apiValue c) (statusUpdate GATHERED)
           ((updateTask (apiValue c) (statusUpdate GATHERING) s)
              \<lparr>usedArticleLinks := insert (link (snd found)) (usedArticleLinks s),
               collectedData := collectedData s @
                 [\<lparr>c_taskId = apiValue c, c_analysis = fst found, c_article = snd found\<rparr>]\<rparr>)"
proof (cases "fetchLatestBangladeshiNews E (apiValue c)")
  case (Inl err)
  then show ?thesis
    by (intro failed [of err]) (simp add: gatherCategory_def Let_def)
next
  case (Inr allArticles)
  define unused where "unused = filter (\<lambda>article. link article \<notin> usedArticleLinks s) allArticles"
  show ?thesis
  proof (cases "unused = []")
    case True
    with Inr show ?thesis
      by (intro failed [of "Error (''No new, unused articles found for '' @ cat_name c @ ''.'')"])
        (simp add: gatherCategory_def Let_def unused_def)
  next
    case False
    show ?thesis
    proof (cases "findAndAnalyzeBestArticleFromList E unused")
      case (Inl err)
      with Inr False show ?thesis
        by (intro failed [of err]) (simp add: gatherCategory_def Let_def unused_def)
    next
      case r: (Inr r)
      show ?thesis
      proof (cases r)
        case None
        with Inr False r show ?thesis
          by (intro failed [of "Error (''Could not find a relevant, unused Bangladesh-specific article for ''
                @ cat_name c @ ''.'')"])
            (simp add: gatherCategory_def Let_def unused_def)
      next
        case (Some found)
        with Inr False r show ?thesis
          by (intro gathered [of found]) (simp add: gatherCategory_def Let_def unused_def)
      qed
    qed
  qed
qed

lemma gatherCategory_other:
  "tid \<noteq> apiValue c \<Longrightarrow> taskOf (gatherCategory E s c) tid = taskOf s tid"
  by (rule gatherCategory_cases [where E = E and s = s and c = c]) (simp_all add: taskFailed_task taskOf_updateTask)

lemma gatherCategory_present:
  "taskOf (gatherCategory E s c) tid = None \<longleftrightarrow> taskOf s tid = None"
  by (rule gatherCategory_cases [where E = E and s = s and c = c]) (simp_all add: taskFailed_task taskOf_updateTask)

lemma gatherCategory_self:
  assumes "taskOf s (apiValue c) = Some t"
  shows "\<exists>t'. taskOf (gatherCategory E s c) (apiValue c) = Some t' \<and>
           (status t' = ERROR \<and> error t' \<noteq> None \<or>
            status t' = GATHERED \<and>
              apiValue c \<in> set (map c_taskId (collectedData (gatherCategory E s c))))"
proof (rule gatherCategory_cases [where E = E and s = s and c = c])
  fix err
  assume "gatherCategory E s c =
      taskFailed (apiValue c) err (updateTask (apiValue c) (statusUpdate GATHERING) s)"
  with assms show ?thesis
    by (simp add: taskFailed_task taskOf_updateTask)
next
  fix found
  assume "gatherCategory E s c =
      updateTask (apiValue c) (statusUpdate GATHERED)
        ((updateTask (apiValue c) (statusUpdate GATHERING) s)
           \<lparr>usedArticleLinks := insert (link (snd found)) (usedArticleLinks s),
            collectedData := collectedData s @
              [\<lparr>c_taskId = apiValue c, c_analysis = fst found, c_article = snd found\<rparr>]\<rparr>)"
  with assms show ?thesis
    by (simp add: taskOf_updateTask)
qed

lemma streamedStatuses_fields [simp]:
  "streamedStatuses (s\<lparr>usedArticleLinks := a\<rparr>) = streamedStatuses s"
  "streamedStatuses (s\<lparr>collectedData := b\<rparr>) = streamedStatuses s"
  by (simp_all add: streamedStatuses_def fun_eq_iff)

lemma streamedStatuses_updateTask:
  assumes "u_id u = None"
  shows "streamedStatuses (updateTask tid u s) tid' =
     streamedStatuses s tid' @
       (if tid' = tid then (case taskOf s tid of None \<Rightarrow> [] | Some t \<Rightarrow> [status (spread t u)])
        else [])"
proof (cases "taskOf s tid")
  case None
  then show ?thesis
    by (simp add: streamedStatuses_def stream_updateTask)
next
  case (Some t)
  from taskOf_id [OF Some] assms have "task_id (spread t u) = tid"
    by (simp add: spread_id)
  with Some show ?thesis
    by (auto simp: streamedStatuses_def stream_updateTask)
qed

lemma streamedStatuses_taskFailed:
  "streamedStatuses (taskFailed tid err s) tid' =
     streamedStatuses s tid' @ (if tid' = tid \<and> taskOf s tid \<noteq> None then [ERROR] else [])"
  by (cases "taskOf s tid") (simp_all add: taskFailed_def streamedStatuses_updateTask)

text \<open>
  What one category of phase 1 streams: for its own task, when the list has it,
  \<^verbatim>\<open>GATHERING\<close> and then \<^verbatim>\<open>GATHERED\<close> or \<^verbatim>\<open>ERROR\<close>; for every other id nothing.
\<close>

lemma gatherCategory_statuses:
  "\<exists>st. (st = GATHERED \<or> st = ERROR) \<and>
        streamedStatuses (gatherCategory E s c) tid =
          streamedStatuses s tid @
            (if tid = apiValue c \<and> taskOf s tid \<noteq> None then [GATHERING, st] else [])"
proof (rule gatherCategory_cases [where E = E and s = s and c = c])
  fix err
  assume "gatherCategory E s c =
      taskFailed (apiValue c) err (updateTask (apiValue c) (statusUpdate GATHERING) s)"
  then show ?thesis
    by (cases "taskOf s (apiValue c)")
      (auto simp: streamedStatuses_taskFailed streamedStatuses_updateTask taskOf_updateTask
        intro!: exI [of _ ERROR])
next
  fix found
  assume "gatherCategory E s c =
      updateTask (apiValue c) (statusUpdate GATHERED)
        ((updateTask (apiValue c) (statusUpdate GATHERING) s)
           \<lparr>usedArticleLinks := insert (link (snd found)) (usedArticleLinks s),
            collectedData := collectedData s @
              [\<lparr>c_taskId = apiValue c, c_analysis = fst found, c_article = snd found\<rparr>]\<rparr>)"
  then show ?thesis
    by (cases "taskOf s (apiValue c)")
      (auto simp: streamedStatuses_updateTask taskOf_updateTask intro!: exI [of _ GATHERED])
qed

text \<open>The four ways the tail of phase 2 can end, and what each streams and leaves.\<close>

lemma composeAndDeliver_cases:
  obtains (composeFailed) err where
      "composeImage E src (a_headline (c_analysis d)) (a_highlightPhrases (c_analysis d)) = Inl err"
      "composeAndDeliver E d src s =
         taskFailed (c_taskId d) err (updateTask (c_taskId d) (statusUpdate COMPOSING) s)"
  | (uploadFailed) err where
      "composeAndDeliver E d src s =
         taskFailed (c_taskId d) err
           (updateTask (c_taskId d) (statusUpdate UPLOADING)
             (updateTask (c_taskId d) (statusUpdate COMPOSING) s))"
  | (webhookFailed) err where
      "composeAndDeliver E d src s =
         taskFailed (c_taskId d) err
           (updateTask (c_taskId d) (statusUpdate SENDING_WEBHOOK)
             (updateTask (c_taskId d) (statusUpdate UPLOADING)
               (updateTask (c_taskId d) (statusUpdate COMPOSING) s)))"
  | (delivered) res where
      "composeAndDeliver E d src s =
         updateTask (c_taskId d) (doneUpdate res)
           (updateTask (c_taskId d) (statusUpdate SENDING_WEBHOOK)
             (updateTask (c_taskId d) (statusUpdate UPLOADING)
               (updateTask (c_taskId d) (statusUpdate COMPOSING) s)))"
proof (cases "composeImage E src (a_headline (c_analysis d)) (a_highlightPhrases (c_analysis d))")
  case (Inl err)
  then show ?thesis
    by (intro composeFailed [of err]) (simp_all add: composeAndDeliver_def Let_def)
next
  case compiled: (Inr compiledImage)
  show ?thesis
  proof (cases "uploadToCloudinary E compiledImage")
    case (Inl err)
    with compiled show ?thesis
      by (intro uploadFailed [of err]) (simp add: composeAndDeliver_def Let_def)
  next
    case uploaded: (Inr imageUrl)
    show ?thesis
    proof (cases "sendToMakeWebhook E
        \<lparr>w_headline = a_headline (c_analysis d), w_imageUrl = imageUrl,
         w_summary = a_caption (c_analysis d), w_newsLink = link (c_article d),
         w_status = ''Queue''\<rparr>")
      case (Inl err)
      with compiled uploaded show ?thesis
        by (intro webhookFailed [of err]) (simp add: composeAndDeliver_def Let_def)
    next
      case (Inr u)
      with compiled uploaded show ?thesis
        by (intro delivered) (simp add: composeAndDeliver_def Let_def)
    qed
  qed
qed

lemma composeAndDeliver_fields [simp]:
  "collectedData (composeAndDeliver E d src s) = collectedData s"
  "usedArticleLinks (composeAndDeliver E d src s) = usedArticleLinks s"
  by (rule composeAndDeliver_cases [where E = E and d = d and src = src and s = s]; simp)+

lemma composeAndDeliver_other:
  "tid \<noteq> c_taskId d \<Longrightarrow> taskOf (composeAndDeliver E d src s) tid = taskOf s tid"
  by (rule composeAndDeliver_cases [where E = E and d = d and src = src and s = s])
    (simp_all add: taskFailed_task taskOf_updateTask)

lemma composeAndDeliver_present:
  "taskOf (composeAndDeliver E d src s) tid = None \<longleftrightarrow> taskOf s tid = None"
  by (rule composeAndDeliver_cases [where E = E and d = d and src = src and s = s])
    (simp_all add: taskFailed_task taskOf_updateTask)

lemma composeAndDeliver_terminal:
  assumes "taskOf s (c_taskId d) = Some t"
  shows "\<exists>t'. taskOf (composeAndDeliver E d src s) (c_taskId d) = Some t' \<and>
           (status t' = DONE \<and> result t' \<noteq> None \<or> status t' = ERROR \<and> error t' \<noteq> None)"
proof (rule composeAndDeliver_cases [where E = E and d = d and src = src and s = s])
  fix res
  assume "composeAndDeliver E d src s =
         updateTask (c_taskId d) (doneUpdate res)
           (updateTask (c_taskId d) (statusUpdate SENDING_WEBHOOK)
             (updateTask (c_taskId d) (statusUpdate UPLOADING)
               (updateTask (c_taskId d) (statusUpdate COMPOSING) s)))"
  with assms show ?thesis
    by (simp add: taskOf_updateTask spread_def doneUpdate_def no_updates_def)
qed (use assms in \<open>simp_all add: taskFailed_task taskOf_updateTask\<close>)

lemma composeAndDeliver_statuses:
  "\<exists>tail. tail \<in> {[COMPOSING, ERROR], [COMPOSING, UPLOADING, ERROR],
                   [COMPOSING, UPLOADING, SENDING_WEBHOOK, ERROR],
                   [COMPOSING, UPLOADING, SENDING_WEBHOOK, DONE]} \<and>
          streamedStatuses (composeAndDeliver E d src s) tid =
            streamedStatuses s tid @
              (if tid = c_taskId d \<and> taskOf s tid \<noteq> None then tail else [])"
proof (rule composeAndDeliver_cases [where E = E and d = d and src = src and s = s])
  fix err
  assume "composeAndDeliver E d src s =
         taskFailed (c_taskId d) err (updateTask (c_taskId d) (statusUpdate COMPOSING) s)"
  then show ?thesis
    by (cases "taskOf s (c_taskId d)")
      (auto simp: streamedStatuses_taskFailed streamedStatuses_updateTask taskOf_updateTask
        intro!: exI [of _ "[COMPOSING, ERROR]"])
next
  fix err
  assume "composeAndDeliver E d src s =
         taskFailed (c_taskId d) err
           (updateTask (c_taskId d) (statusUpdate UPLOADING)
             (updateTask (c_taskId d) (statusUpdate COMPOSING) s))"
  then show ?thesis
    by (cases "taskOf s (c_taskId d)")
      (auto simp: streamedStatuses_taskFailed streamedStatuses_updateTask taskOf_updateTask
        intro!: exI [of _ "[COMPOSING, UPLOADING, ERROR]"])
next
  fix err
  assume "composeAndDeliver E d src s =
         taskFailed (c_taskId d) err
           (updateTask (c_taskId d) (statusUpdate SENDING_WEBHOOK)
             (updateTask (c_taskId d) (statusUpdate UPLOADING)
               (updateTask (c_taskId d) (statusUpdate COMPOSING) s)))"
  then show ?thesis
    by (cases "taskOf s (c_taskId d)")
      (auto simp: streamedStatuses_taskFailed streamedStatuses_updateTask taskOf_updateTask
        intro!: exI [of _ "[COMPOSING, UPLOADING, SENDING_WEBHOOK, ERROR]"])
next
  fix res
  assume "composeAndDeliver E d src s =
         updateTask (c_taskId d) (doneUpdate res)
           (updateTask (c_taskId d) (statusUpdate SENDING_WEBHOOK)
             (updateTask (c_taskId d) (statusUpdate UPLOADING)
               (updateTask (c_taskId d) (statusUpdate COMPOSING) s)))"
  then show ?thesis
    by (cases "taskOf s (c_taskId d)")
      (auto simp: streamedStatuses_updateTask taskOf_updateTask
        intro!: exI [of _ "[COMPOSING, UPLOADING, SENDING_WEBHOOK, DONE]"])
qed

text \<open>One collected item of phase 2, by whether the article has an image reference.\<close>

lemma processCollected_unfold:
  "processCollected E s d =
     (if noImageUrl (c_article d) then
        (case generateImageFromPrompt E (a_imagePrompt (c_analysis d)) of
           Inl err \<Rightarrow>
             taskFailed (c_taskId d) err
               (updateTask (c_taskId d) (statusUpdate GENERATING_IMAGE)
                 (updateTask (c_taskId d) (statusUpdate PROCESSING) s))
         | Inr generated \<Rightarrow>
             composeAndDeliver E d generated
               (updateTask (c_taskId d) (statusUpdate GENERATING_IMAGE)
                 (updateTask (c_taskId d) (statusUpdate PROCESSING) s)))
      else composeAndDeliver E d (the (image_url (c_article d)))
             (updateTask (c_taskId d) (statusUpdate PROCESSING) s))"
  by (simp add: processCollected_def noImageUrl_def Let_def split: option.splits)

lemma processCollected_fields [simp]:
  "collectedData (processCollected E s d) = collectedData s"
  "usedArticleLinks (processCollected E s d) = usedArticleLinks s"
  by (simp_all add: processCollected_unfold split: sum.splits)

lemma processCollected_other:
  "tid \<noteq> c_taskId d \<Longrightarrow> taskOf (processCollected E s d) tid = taskOf s tid"
  by (simp add: processCollected_unfold composeAndDeliver_other taskFailed_task taskOf_updateTask
      split: sum.splits)

lemma processCollected_present:
  "taskOf (processCollected E s d) tid = None \<longleftrightarrow> taskOf s tid = None"
  by (simp add: processCollected_unfold composeAndDeliver_present taskFailed_task taskOf_updateTask
      split: sum.splits)

lemma processCollected_terminal:
  assumes "taskOf s (c_taskId d) = Some t"
  shows "\<exists>t'. taskOf (processCollected E s d) (c_taskId d) = Some t' \<and>
           (status t' = DONE \<and> result t' \<noteq> None \<or> status t' = ERROR \<and> error t' \<noteq> None)"
proof -
  have p: "taskOf (updateTask (c_taskId d) (statusUpdate PROCESSING) s) (c_taskId d) =
      Some (spread t (statusUpdate PROCESSING))"
    using assms by (simp add: taskOf_updateTask)
  have g: "taskOf (updateTask (c_taskId d) (statusUpdate GENERATING_IMAGE)
      (updateTask (c_taskId d) (statusUpdate PROCESSING) s)) (c_taskId d) =
      Some (spread (spread t (statusUpdate PROCESSING)) (statusUpdate GENERATING_IMAGE))"
    using assms by (simp add: taskOf_updateTask)
  show ?thesis
    unfolding processCollected_unfold
    using composeAndDeliver_terminal [OF p] composeAndDeliver_terminal [OF g] g
    by (simp add: taskFailed_task split: sum.splits)
qed

text \<open>
  What one item of phase 2 streams for its task: \<^verbatim>\<open>PROCESSING\<close>, then \<^verbatim>\<open>GENERATING_IMAGE\<close>
  exactly when the article has no image reference, then \<^verbatim>\<open>ERROR\<close> if the generation
  failed and otherwise one of the four tails from \<^verbatim>\<open>COMPOSING\<close> on.
\<close>

lemma processCollected_statuses:
  "\<exists>tail. (tail = [ERROR] \<and> noImageUrl (c_article d) \<or>
           tail \<in> {[COMPOSING, ERROR], [COMPOSING, UPLOADING, ERROR],
                    [COMPOSING, UPLOADING, SENDING_WEBHOOK, ERROR],
                    [COMPOSING, UPLOADING, SENDING_WEBHOOK, DONE]}) \<and>
          streamedStatuses (processCollected E s d) tid =
            streamedStatuses s tid @
              (if tid = c_taskId d \<and> taskOf s tid \<noteq> None
               then PROCESSING # (if noImageUrl (c_article d) then [GENERATING_IMAGE] else []) @ tail
               else [])"
proof (cases "noImageUrl (c_article d)")
  case False
  define s1 where "s1 = updateTask (c_taskId d) (statusUpdate PROCESSING) s"
  from composeAndDeliver_statuses [of E d "the (image_url (c_article d))" s1 tid]
  obtain tail where tail: "tail \<in> {[COMPOSING, ERROR], [COMPOSING, UPLOADING, ERROR],
        [COMPOSING, UPLOADING, SENDING_WEBHOOK, ERROR],
        [COMPOSING, UPLOADING, SENDING_WEBHOOK, DONE]}"
    "streamedStatuses (composeAndDeliver E d (the (image_url (c_article d))) s1) tid =
       streamedStatuses s1 tid @ (if tid = c_taskId d \<and> taskOf s1 tid \<noteq> None then tail else [])"
    by blast
  have "streamedStatuses (processCollected E s d) tid =
      streamedStatuses s tid @
        (if tid = c_taskId d \<and> taskOf s tid \<noteq> None then PROCESSING # tail else [])"
    using False tail(2)
    by (cases "taskOf s (c_taskId d)")
      (simp_all add: processCollected_unfold s1_def streamedStatuses_updateTask taskOf_updateTask)
  with False tail(1) show ?thesis
    by (intro exI [of _ tail]) auto
next
  case True
  define s2 where "s2 = updateTask (c_taskId d) (statusUpdate GENERATING_IMAGE)
      (updateTask (c_taskId d) (statusUpdate PROCESSING) s)"
  have s2: "streamedStatuses s2 tid =
      streamedStatuses s tid @
        (if tid = c_taskId d \<and> taskOf s tid \<noteq> None then [PROCESSING, GENERATING_IMAGE] else [])"
    "\<And>x. taskOf s2 x = None \<longleftrightarrow> taskOf s x = None"
    by (cases "taskOf s (c_taskId d)";
        simp add: s2_def streamedStatuses_updateTask taskOf_updateTask)+
  show ?thesis
  proof (cases "generateImageFromPrompt E (a_imagePrompt (c_analysis d))")
    case (Inl err)
    with True s2 have "streamedStatuses (processCollected E s d) tid =
        streamedStatuses s tid @
          (if tid = c_taskId d \<and> taskOf s tid \<noteq> None
           then [PROCESSING, GENERATING_IMAGE, ERROR] else [])"
      by (auto simp: processCollected_unfold s2_def [symmetric] streamedStatuses_taskFailed)
    with True show ?thesis
      by (intro exI [of _ "[ERROR]"]) auto
  next
    case (Inr generated)
    from composeAndDeliver_statuses [of E d generated s2 tid]
    obtain tail where tail: "tail \<in> {[COMPOSING, ERROR], [COMPOSING, UPLOADING, ERROR],
          [COMPOSING, UPLOADING, SENDING_WEBHOOK, ERROR],
          [COMPOSING, UPLOADING, SENDING_WEBHOOK, DONE]}"
      "streamedStatuses (composeAndDeliver E d generated s2) tid =
         streamedStatuses s2 tid @ (if tid = c_taskId d \<and> taskOf s2 tid \<noteq> None then tail else [])"
      by blast
    from True Inr tail(2) s2 have "streamedStatuses (processCollected E s d) tid =
        streamedStatuses s tid @
          (if tid = c_taskId d \<and> taskOf s tid \<noteq> None
           then PROCESSING # GENERATING_IMAGE # tail else [])"
      by (auto simp: processCollected_unfold s2_def [symmetric])
    with True tail(1) show ?thesis
      by (intro exI [of _ tail]) auto
  qed
qed

section \<open>The whole run\<close>

lemma phase1_present:
  "taskOf (foldl (gatherCategory E) s cats) tid = None \<longleftrightarrow> taskOf s tid = None"
  by (induction cats arbitrary: s) (simp_all add: gatherCategory_present)

lemma phase1_other:
  "tid \<notin> set (map apiValue cats) \<Longrightarrow> taskOf (foldl (gatherCategory E) s cats) tid = taskOf s tid"
  by (induction cats arbitrary: s) (simp_all add: gatherCategory_other)

lemma phase1_collected_grows:
  "set (map c_taskId (collectedData s)) \<subseteq>
     set (map c_taskId (collectedData (foldl (gatherCategory E) s cats)))"
  using phase1_links [of E s cats] by auto

lemma phase1_statuses:
  "\<exists>more. streamedStatuses (foldl (gatherCategory E) s cats) tid = streamedStatuses s tid @ more \<and>
          (tid \<in> set (map apiValue cats) \<and> taskOf s tid \<noteq> None \<longrightarrow> GATHERING \<in> set more)"
proof (induction cats arbitrary: s)
  case Nil
  then show ?case by simp
next
  case (Cons c cats)
  define s1 where "s1 = gatherCategory E s c"
  from gatherCategory_statuses [of E s c tid] obtain st where
    st: "streamedStatuses s1 tid =
      streamedStatuses s tid @ (if tid = apiValue c \<and> taskOf s tid \<noteq> None then [GATHERING, st] else [])"
    unfolding s1_def by blast
  from Cons.IH [of s1] obtain more where
    more: "streamedStatuses (foldl (gatherCategory E) s1 cats) tid = streamedStatuses s1 tid @ more"
      "tid \<in> set (map apiValue cats) \<and> taskOf s1 tid \<noteq> None \<longrightarrow> GATHERING \<in> set more"
    by blast
  have p: "taskOf s1 tid = None \<longleftrightarrow> taskOf s tid = None"
    by (simp add: s1_def gatherCategory_present)
  show ?case
    unfolding foldl_Cons s1_def [symmetric] more(1) st
    using more(2) p
    by (intro exI [of _ "(if tid = apiValue c \<and> taskOf s tid \<noteq> None then [GATHERING, st] else []) @ more"])
      auto
qed

lemma phase1_outcome:
  assumes "tid \<in> set (map apiValue cats)" and "taskOf s tid \<noteq> None"
  shows "\<exists>t. taskOf (foldl (gatherCategory E) s cats) tid = Some t \<and>
           (status t = ERROR \<and> error t \<noteq> None \<or>
            status t = GATHERED \<and>
              tid \<in> set (map c_taskId (collectedData (foldl (gatherCategory E) s cats))))"
  using assms
proof (induction cats arbitrary: s)
  case Nil
  then show ?case by simp
next
  case (Cons c cats)
  define s1 where "s1 = gatherCategory E s c"
  have p: "taskOf s1 tid \<noteq> None"
    using Cons.prems(2) by (simp add: s1_def gatherCategory_present)
  show ?case
  proof (cases "tid \<in> set (map apiValue cats)")
    case True
    from Cons.IH [OF True p] show ?thesis
      by (simp add: s1_def)
  next
    case False
    with Cons.prems(1) have tid: "tid = apiValue c"
      by simp
    from Cons.prems(2) obtain t where "taskOf s (apiValue c) = Some t"
      unfolding tid by blast
    from gatherCategory_self [OF this, of E] obtain t' where
      t': "taskOf s1 tid = Some t'"
        "status t' = ERROR \<and> error t' \<noteq> None \<or>
         status t' = GATHERED \<and> tid \<in> set (map c_taskId (collectedData s1))"
      unfolding s1_def tid by blast
    have same: "taskOf (foldl (gatherCategory E) s1 cats) tid = Some t'"
      using phase1_other [OF False, of E s1] t'(1) by simp
    with t'(2) phase1_collected_grows [of s1 E cats] show ?thesis
      unfolding foldl_Cons s1_def [symmetric] by blast
  qed
qed

lemma phase2_collected [simp]:
  "collectedData (foldl (processCollected E) s ds) = collectedData s"
  by (induction ds arbitrary: s) simp_all

lemma phase2_present:
  "taskOf (foldl (processCollected E) s ds) tid = None \<longleftrightarrow> taskOf s tid = None"
  by (induction ds arbitrary: s) (simp_all add: processCollected_present)

lemma phase2_other:
  "tid \<notin> set (map c_taskId ds) \<Longrightarrow> taskOf (foldl (processCollected E) s ds) tid = taskOf s tid"
  by (induction ds arbitrary: s) (simp_all add: processCollected_other)

lemma phase2_statuses:
  "\<exists>more. streamedStatuses (foldl (processCollected E) s ds) tid = streamedStatuses s tid @ more"
proof (induction ds arbitrary: s)
  case Nil
  then show ?case by simp
next
  case (Cons d ds)
  from processCollected_statuses [of d E s tid] obtain m1 where
    "streamedStatuses (processCollected E s d) tid = streamedStatuses s tid @ m1"
    by blast
  moreover from Cons.IH [of "processCollected E s d"] obtain m2 where
    "streamedStatuses (foldl (processCollected E) (processCollected E s d) ds) tid =
       streamedStatuses (processCollected E s d) tid @ m2"
    by blast
  ultimately show ?case
    by simp
qed

lemma phase2_outcome:
  assumes "tid \<in> set (map c_taskId ds)" and "taskOf s tid \<noteq> None"
  shows "\<exists>t. taskOf (foldl (processCollected E) s ds) tid = Some t \<and>
           (status t = DONE \<and> result t \<noteq> None \<or> status t = ERROR \<and> error t \<noteq> None)"
  using assms
proof (induction ds arbitrary: s)
  case Nil
  then show ?case by simp
next
  case (Cons d ds)
  define s1 where "s1 = processCollected E s d"
  have p: "taskOf s1 tid \<noteq> None"
    using Cons.prems(2) by (simp add: s1_def processCollected_present)
  show ?case
  proof (cases "tid \<in> set (map c_taskId ds)")
    case True
    from Cons.IH [OF True p] show ?thesis
      by (simp add: s1_def)
  next
    case False
    with Cons.prems(1) have tid: "tid = c_taskId d"
      by simp
    from Cons.prems(2) obtain t where "taskOf s (c_taskId d) = Some t"
      unfolding tid by blast
    from processCollected_terminal [OF this, of E] obtain t' where
      t': "taskOf s1 tid = Some t'"
        "status t' = DONE \<and> result t' \<noteq> None \<or> status t' = ERROR \<and> error t' \<noteq> None"
      unfolding s1_def tid by blast
    have "taskOf (foldl (processCollected E) s1 ds) tid = Some t'"
      using phase2_other [OF False, of E s1] t'(1) by simp
    with t'(2) show ?thesis
      unfolding foldl_Cons s1_def [symmetric] by blast
  qed
qed

lemma initial_present:
  "c \<in> set (NEWS_CATEGORIES E) \<Longrightarrow> taskOf (initialState E) (apiValue c) \<noteq> None"
  by (auto simp: taskOf_def initialState_def initialTasks_def find_None_iff)

text \<open>
  After the run every category's task is \<^verbatim>\<open>DONE\<close> with a result or \<^verbatim>\<open>ERROR\<close> with a
  message, and the stream shows that its gathering was started.
\<close>

lemma handler_every_category:
  assumes "c \<in> set (NEWS_CATEGORIES E)"
  shows "(\<exists>t. taskOf (handler E) (apiValue c) = Some t \<and>
            (status t = DONE \<and> result t \<noteq> None \<or> status t = ERROR \<and> error t \<noteq> None)) \<and>
         GATHERING \<in> set (streamedStatuses (handler E) (apiValue c))"
proof -
  define tid where "tid = apiValue c"
  define s1 where "s1 = phase1 E (initialState E)"
  have mem: "tid \<in> set (map apiValue (NEWS_CATEGORIES E))"
    using assms by (simp add: tid_def)
  have p0: "taskOf (initialState E) tid \<noteq> None"
    using initial_present [OF assms] by (simp add: tid_def)
  from phase1_outcome [OF mem p0, of E] obtain t1 where
    t1: "taskOf s1 tid = Some t1"
      "status t1 = ERROR \<and> error t1 \<noteq> None \<or>
       status t1 = GATHERED \<and> tid \<in> set (map c_taskId (collectedData s1))"
    unfolding s1_def phase1_def by blast
  from phase1_statuses [of E "initialState E" "NEWS_CATEGORIES E" tid] mem p0 obtain m1 where
    m1: "streamedStatuses s1 tid = streamedStatuses (initialState E) tid @ m1" "GATHERING \<in> set m1"
    unfolding s1_def phase1_def by blast
  from phase2_statuses [of E s1 "collectedData s1" tid] obtain m2 where
    "streamedStatuses (handler E) tid = streamedStatuses s1 tid @ m2"
    unfolding handler_def phase2_def s1_def by blast
  with m1 have g: "GATHERING \<in> set (streamedStatuses (handler E) tid)"
    by simp
  have "\<exists>t. taskOf (handler E) tid = Some t \<and>
      (status t = DONE \<and> result t \<noteq> None \<or> status t = ERROR \<and> error t \<noteq> None)"
  proof (cases "tid \<in> set (map c_taskId (collectedData s1))")
    case True
    from phase2_outcome [OF True, of s1 E] t1(1) show ?thesis
      unfolding handler_def phase2_def s1_def by simp
  next
    case False
    from phase2_other [OF False, of E s1] t1 False show ?thesis
      unfolding handler_def phase2_def s1_def by simp
  qed
  with g show ?thesis
    unfolding tid_def by blast
qed

section \<open>The in-browser orchestrator\<close>

lemma updateTask_app_fields [simp]:
  "app_usedArticleLinks (updateTask_app tid u s) = app_usedArticleLinks s"
  "app_collectedData (updateTask_app tid u s) = app_collectedData s"
  "app_calls (updateTask_app tid u s) = app_calls s @ [(tid, u)]"
  by (simp_all add: updateTask_app_def)

lemma taskFailed_app_fields [simp]:
  "app_usedArticleLinks (taskFailed_app tid err s) = app_usedArticleLinks s"
  "app_collectedData (taskFailed_app tid err s) = app_collectedData s"
  by (simp_all add: taskFailed_app_def)

lemma gatherCategory_app_links:
  "(app_collectedData (gatherCategory_app E s c) = app_collectedData s \<and>
    app_usedArticleLinks (gatherCategory_app E s c) = app_usedArticleLinks s) \<or>
   (\<exists>d. app_collectedData (gatherCategory_app E s c) = app_collectedData s @ [d] \<and>
        c_taskId d = apiValue c \<and>
        link (c_article d) \<notin> app_usedArticleLinks s \<and>
        app_usedArticleLinks (gatherCategory_app E s c) =
          insert (link (c_article d)) (app_usedArticleLinks s))"
proof (cases "gatherArticles E c")
  case (Inl err)
  then show ?thesis
    by (simp add: gatherCategory_app_def Let_def)
next
  case (Inr allArticles)
  define unused where
    "unused = filter (\<lambda>article. link article \<notin> app_usedArticleLinks s) allArticles"
  show ?thesis
  proof (cases "findAndAnalyzeBestArticleFromList E unused")
    case (Inl err)
    with Inr show ?thesis
      by (simp add: gatherCategory_app_def Let_def unused_def)
  next
    case found: (Inr r)
    show ?thesis
    proof (cases r)
      case None
      with Inr found show ?thesis
        by (simp add: gatherCategory_app_def Let_def unused_def)
    next
      case (Some f)
      with found have mem: "snd f \<in> set unused"
        by (simp add: findAndAnalyze_member)
      then have ne: "unused \<noteq> []"
        by auto
      from mem have new: "link (snd f) \<notin> app_usedArticleLinks s"
        by (simp add: unused_def)
      from Inr found Some ne new show ?thesis
        by (simp add: gatherCategory_app_def Let_def unused_def)
    qed
  qed
qed

lemma phase1_app_links:
  "\<exists>new. app_collectedData (foldl (gatherCategory_app E) s cats) = app_collectedData s @ new \<and>
         app_usedArticleLinks (foldl (gatherCategory_app E) s cats) =
           app_usedArticleLinks s \<union> set (map (\<lambda>d. link (c_article d)) new) \<and>
         distinct (map (\<lambda>d. link (c_article d)) new) \<and>
         set (map (\<lambda>d. link (c_article d)) new) \<inter> app_usedArticleLinks s = {}"
proof (induction cats arbitrary: s)
  case Nil
  then show ?case by simp
next
  case (Cons c cats)
  define s1 where "s1 = gatherCategory_app E s c"
  from Cons.IH [of s1] obtain new where new:
    "app_collectedData (foldl (gatherCategory_app E) s1 cats) = app_collectedData s1 @ new"
    "app_usedArticleLinks (foldl (gatherCategory_app E) s1 cats) =
       app_usedArticleLinks s1 \<union> set (map (\<lambda>d. link (c_article d)) new)"
    "distinct (map (\<lambda>d. link (c_article d)) new)"
    "set (map (\<lambda>d. link (c_article d)) new) \<inter> app_usedArticleLinks s1 = {}"
    by blast
  from gatherCategory_app_links [of E s c]
  consider (same) "app_collectedData s1 = app_collectedData s"
      "app_usedArticleLinks s1 = app_usedArticleLinks s"
    | (more) d where "app_collectedData s1 = app_collectedData s @ [d]"
        "link (c_article d) \<notin> app_usedArticleLinks s"
        "app_usedArticleLinks s1 = insert (link (c_article d)) (app_usedArticleLinks s)"
    unfolding s1_def by blast
  then show ?case
  proof cases
    case same
    with new show ?thesis
      unfolding foldl_Cons s1_def [symmetric]
      by (intro exI [of _ new]) auto
  next
    case more
    with new show ?thesis
      unfolding foldl_Cons s1_def [symmetric]
      by (intro exI [of _ "d # new"]) auto
  qed
qed

section \<open>Image acquisition in the in-browser orchestrator\<close>

lemma map_filter_snoc:
  "List.map_filter f (xs @ [x]) =
     List.map_filter f xs @ (case f x of None \<Rightarrow> [] | Some y \<Rightarrow> [y])"
  by (induction xs) (simp_all add: map_filter_simps split: option.splits)

lemma calledStatuses_update [simp]:
  "calledStatuses (updateTask_app tid (statusUpdate st) s) tid' =
     calledStatuses s tid' @ (if tid' = tid then [st] else [])"
  "calledStatuses (taskFailed_app tid err s) tid' =
     calledStatuses s tid' @ (if tid' = tid then [ERROR] else [])"
  "calledStatuses (updateTask_app tid (doneUpdate r) s) tid' =
     calledStatuses s tid' @ (if tid' = tid then [DONE] else [])"
  "calledStatuses (s\<lparr>app_completedCount := n\<rparr>) tid' = calledStatuses s tid'"
  by (simp_all add: calledStatuses_def taskFailed_app_def map_filter_snoc
      statusUpdate_def errorUpdate_def doneUpdate_def no_updates_def)

lemma composeAndDeliver_app_statuses:
  "\<exists>tail. tail \<in> {[COMPOSING, ERROR], [COMPOSING, UPLOADING, ERROR],
                   [COMPOSING, UPLOADING, SENDING_WEBHOOK, ERROR],
                   [COMPOSING, UPLOADING, SENDING_WEBHOOK, DONE]} \<and>
          calledStatuses (composeAndDeliver_app E d img s) tid =
            calledStatuses s tid @ (if tid = c_taskId d then tail else [])"
proof (cases "composeLoaded E img (a_headline (c_analysis d)) (a_highlightPhrases (c_analysis d))")
  case (Inl err)
  then show ?thesis
    by (intro exI [of _ "[COMPOSING, ERROR]"]) (simp add: composeAndDeliver_app_def Let_def)
next
  case compiled: (Inr compiledImage)
  show ?thesis
  proof (cases "uploadToCloudinary E compiledImage")
    case (Inl err)
    with compiled show ?thesis
      by (intro exI [of _ "[COMPOSING, UPLOADING, ERROR]"])
        (simp add: composeAndDeliver_app_def Let_def)
  next
    case uploaded: (Inr imageUrl)
    show ?thesis
    proof (cases "sendToMakeWebhook E
        \<lparr>w_headline = a_headline (c_analysis d), w_imageUrl = imageUrl,
         w_summary = a_caption (c_analysis d), w_newsLink = link (c_article d),
         w_status = ''Queue''\<rparr>")
      case (Inl err)
      with compiled uploaded show ?thesis
        by (intro exI [of _ "[COMPOSING, UPLOADING, SENDING_WEBHOOK, ERROR]"])
          (simp add: composeAndDeliver_app_def Let_def)
    next
      case (Inr u)
      with compiled uploaded show ?thesis
        by (intro exI [of _ "[COMPOSING, UPLOADING, SENDING_WEBHOOK, DONE]"])
          (simp add: composeAndDeliver_app_def Let_def)
    qed
  qed
qed

text \<open>
  In the in-browser orchestrator a task of phase 2 is set to \<^verbatim>\<open>GENERATING_IMAGE\<close>, right
  after \<^verbatim>\<open>PROCESSING\<close> and before \<^verbatim>\<open>COMPOSING\<close>, exactly when the article's own image does
  not load; it then fails at once only if the substitute cannot be generated or loaded.
\<close>

lemma processCollected_app_statuses:
  "\<exists>tail. (tail = [ERROR] \<and> (\<exists>err. loadArticleImage E (c_article d) = Inl err) \<or>
           tail \<in> {[COMPOSING, ERROR], [COMPOSING, UPLOADING, ERROR],
                    [COMPOSING, UPLOADING, SENDING_WEBHOOK, ERROR],
                    [COMPOSING, UPLOADING, SENDING_WEBHOOK, DONE]}) \<and>
          calledStatuses (processCollected_app E s d) (c_taskId d) =
            calledStatuses s (c_taskId d) @
              PROCESSING #
              (case loadArticleImage E (c_article d) of
                 Inl err \<Rightarrow> [GENERATING_IMAGE]
               | Inr img \<Rightarrow> []) @ tail"
proof (cases "loadArticleImage E (c_article d)")
  case (Inr img)
  define s1 where "s1 = updateTask_app (c_taskId d) (statusUpdate PROCESSING) s"
  from composeAndDeliver_app_statuses [of E d img s1 "c_taskId d"] obtain tail where
    tail: "tail \<in> {[COMPOSING, ERROR], [COMPOSING, UPLOADING, ERROR],
        [COMPOSING, UPLOADING, SENDING_WEBHOOK, ERROR],
        [COMPOSING, UPLOADING, SENDING_WEBHOOK, DONE]}"
      "calledStatuses (composeAndDeliver_app E d img s1) (c_taskId d) =
         calledStatuses s1 (c_taskId d) @ tail"
    by auto
  from Inr tail show ?thesis
    by (intro exI [of _ tail]) (simp add: processCollected_app_def Let_def s1_def)
next
  case (Inl loadError)
  define s2 where "s2 = updateTask_app (c_taskId d) (statusUpdate GENERATING_IMAGE)
      (updateTask_app (c_taskId d) (statusUpdate PROCESSING) s)"
  have s2: "calledStatuses s2 (c_taskId d) =
      calledStatuses s (c_taskId d) @ [PROCESSING, GENERATING_IMAGE]"
    by (simp add: s2_def)
  show ?thesis
  proof (cases "generateImageFromPrompt E (a_imagePrompt (c_analysis d))")
    case gen: (Inl err)
    with Inl s2 show ?thesis
      by (intro exI [of _ "[ERROR]"]) (simp add: processCollected_app_def Let_def s2_def)
  next
    case gen: (Inr generated)
    show ?thesis
    proof (cases "loadImage E generated")
      case (Inl err)
      with \<open>loadArticleImage E (c_article d) = Inl loadError\<close> gen s2 show ?thesis
        by (intro exI [of _ "[ERROR]"]) (simp add: processCollected_app_def Let_def s2_def)
    next
      case (Inr img)
      from composeAndDeliver_app_statuses [of E d img s2 "c_taskId d"] obtain tail where
        tail: "tail \<in> {[COMPOSING, ERROR], [COMPOSING, UPLOADING, ERROR],
            [COMPOSING, UPLOADING, SENDING_WEBHOOK, ERROR],
            [COMPOSING, UPLOADING, SENDING_WEBHOOK, DONE]}"
          "calledStatuses (composeAndDeliver_app E d img s2) (c_taskId d) =
             calledStatuses s2 (c_taskId d) @ tail"
        by auto
      from Inl gen Inr tail s2 show ?thesis
        by (intro exI [of _ tail]) (simp add: processCollected_app_def Let_def s2_def [symmetric])
    qed
  qed
qed

section \<open>What a \<^verbatim>\<open>try\<close> block leaves in its task\<close>

lemma spread_updates:
  "spread t (statusUpdate st) = t\<lparr>status := st\<rparr>"
  "spread t (errorUpdate m) = t\<lparr>status := ERROR, error := Some m\<rparr>"
  "spread t (doneUpdate r) = t\<lparr>status := DONE, result := Some r\<rparr>"
  by (cases t; simp add: spread_def statusUpdate_def errorUpdate_def doneUpdate_def no_updates_def)+

lemma gatherCategory_attempt:
  "gatherCategory E s c =
     (case gatherAttempt E s c of
        Inl err \<Rightarrow>
          taskFailed (apiValue c) err (updateTask (apiValue c) (statusUpdate GATHERING) s)
      | Inr found \<Rightarrow>
          updateTask (apiValue c) (statusUpdate GATHERED)
            ((updateTask (apiValue c) (statusUpdate GATHERING) s)
               \<lparr>usedArticleLinks := insert (link (snd found)) (usedArticleLinks s),
                collectedData := collectedData s @
                  [\<lparr>c_taskId = apiValue c, c_analysis = fst found, c_article = snd found\<rparr>]\<rparr>))"
  by (simp add: gatherCategory_def gatherAttempt_def Let_def split: sum.splits option.splits)

lemma gatherCategory_outcome:
  assumes "taskOf s (apiValue c) = Some t"
  shows "taskOf (gatherCategory E s c) (apiValue c) =
           Some (case gatherAttempt E s c of
                   Inl err \<Rightarrow> t\<lparr>status := ERROR, error := Some (errorMessage err)\<rparr>
                 | Inr found \<Rightarrow> t\<lparr>status := GATHERED\<rparr>)"
  using assms
  by (simp add: gatherCategory_attempt taskFailed_task taskOf_updateTask spread_updates
      split: sum.splits)

lemma gatherAttempt_null:
  assumes "fetchLatestBangladeshiNews E (apiValue c) = Inr allArticles"
    and "findAndAnalyzeBestArticleFromList E
           (filter (\<lambda>article. link article \<notin> usedArticleLinks s) allArticles) = Inr None"
    and "filter (\<lambda>article. link article \<notin> usedArticleLinks s) allArticles \<noteq> []"
  shows "gatherAttempt E s c =
           Inl (Error (''Could not find a relevant, unused Bangladesh-specific article for ''
                       @ cat_name c @ ''.''))"
  using assms by (simp add: gatherAttempt_def Let_def)

lemma composeAndDeliver_outcome:
  assumes "taskOf s (c_taskId d) = Some t"
  shows "taskOf (composeAndDeliver E d src s) (c_taskId d) =
           Some (case deliverAttempt E d src of
                   Inl err \<Rightarrow> t\<lparr>status := ERROR, error := Some (errorMessage err)\<rparr>
                 | Inr r \<Rightarrow> t\<lparr>status := DONE, result := Some r\<rparr>)"
  using assms
  by (simp add: composeAndDeliver_def deliverAttempt_def Let_def taskFailed_task taskOf_updateTask
      spread_updates split: sum.splits)

lemma processCollected_outcome:
  assumes "taskOf s (c_taskId d) = Some t"
  shows "taskOf (processCollected E s d) (c_taskId d) =
           Some (case processAttempt E d of
                   Inl err \<Rightarrow> t\<lparr>status := ERROR, error := Some (errorMessage err)\<rparr>
                 | Inr r \<Rightarrow> t\<lparr>status := DONE, result := Some r\<rparr>)"
proof -
  have p: "taskOf (updateTask (c_taskId d) (statusUpdate PROCESSING) s) (c_taskId d) =
      Some (t\<lparr>status := PROCESSING\<rparr>)"
    using assms by (simp add: taskOf_updateTask spread_updates)
  have g: "taskOf (updateTask (c_taskId d) (statusUpdate GENERATING_IMAGE)
      (updateTask (c_taskId d) (statusUpdate PROCESSING) s)) (c_taskId d) =
      Some (t\<lparr>status := GENERATING_IMAGE\<rparr>)"
    using assms by (simp add: taskOf_updateTask spread_updates)
  show ?thesis
    unfolding processCollected_unfold processAttempt_def
    using composeAndDeliver_outcome [OF p, of E] composeAndDeliver_outcome [OF g, of E] g
    by (simp add: taskFailed_task spread_updates split: sum.splits)
qed

lemma phase2_processing:
  "\<exists>more. streamedStatuses (foldl (processCollected E) s ds) tid = streamedStatuses s tid @ more \<and>
          (tid \<in> set (map c_taskId ds) \<and> taskOf s tid \<noteq> None \<longrightarrow> PROCESSING \<in> set more)"
proof (induction ds arbitrary: s)
  case Nil
  then show ?case by simp
next
  case (Cons d ds)
  define s1 where "s1 = processCollected E s d"
  from processCollected_statuses [of d E s tid] obtain tail where
    st: "streamedStatuses s1 tid =
      streamedStatuses s tid @
        (if tid = c_taskId d \<and> taskOf s tid \<noteq> None
         then PROCESSING # (if noImageUrl (c_article d) then [GENERATING_IMAGE] else []) @ tail
         else [])"
    unfolding s1_def by blast
  from Cons.IH [of s1] obtain more where
    more: "streamedStatuses (foldl (processCollected E) s1 ds) tid = streamedStatuses s1 tid @ more"
      "tid \<in> set (map c_taskId ds) \<and> taskOf s1 tid \<noteq> None \<longrightarrow> PROCESSING \<in> set more"
    by blast
  have p: "taskOf s1 tid = None \<longleftrightarrow> taskOf s tid = None"
    by (simp add: s1_def processCollected_present)
  show ?case
    unfolding foldl_Cons s1_def [symmetric] more(1) st
    using more(2) p
    by (intro exI [of _ "(if tid = c_taskId d \<and> taskOf s tid \<noteq> None
         then PROCESSING # (if noImageUrl (c_article d) then [GENERATING_IMAGE] else []) @ tail
         else []) @ more"]) auto
qed

text \<open>The same facts as rewrite rules, for running the two phases on an example.\<close>

lemma gatherCategory_used:
  "usedArticleLinks (gatherCategory E s c) =
     (case gatherAttempt E s c of
        Inl err \<Rightarrow> usedArticleLinks s
      | Inr found \<Rightarrow> insert (link (snd found)) (usedArticleLinks s))"
  by (simp add: gatherCategory_attempt taskFailed_def split: sum.splits)

lemma gatherCategory_collected:
  "collectedData (gatherCategory E s c) =
     (case gatherAttempt E s c of
        Inl err \<Rightarrow> collectedData s
      | Inr found \<Rightarrow>
          collectedData s @
            [\<lparr>c_taskId = apiValue c, c_analysis = fst found, c_article = snd found\<rparr>])"
  by (simp add: gatherCategory_attempt taskFailed_def split: sum.splits)

lemma gatherCategory_task:
  "taskOf (gatherCategory E s c) tid =
     (if tid = apiValue c then
        map_option
          (\<lambda>t. case gatherAttempt E s c of
                  Inl err \<Rightarrow> t\<lparr>status := ERROR, error := Some (errorMessage err)\<rparr>
                | Inr found \<Rightarrow> t\<lparr>status := GATHERED\<rparr>)
          (taskOf s tid)
      else taskOf s tid)"
proof (cases "tid = apiValue c")
  case False
  then show ?thesis
    by (simp add: gatherCategory_other)
next
  case True
  show ?thesis
  proof (cases "taskOf s (apiValue c)")
    case None
    with True show ?thesis
      by (simp add: gatherCategory_present)
  next
    case (Some t)
    from gatherCategory_outcome [OF this, of E] True Some show ?thesis
      by simp
  qed
qed

lemma processCollected_task:
  "taskOf (processCollected E s d) tid =
     (if tid = c_taskId d then
        map_option
          (\<lambda>t. case processAttempt E d of
                  Inl err \<Rightarrow> t\<lparr>status := ERROR, error := Some (errorMessage err)\<rparr>
                | Inr r \<Rightarrow> t\<lparr>status := DONE, result := Some r\<rparr>)
          (taskOf s tid)
      else taskOf s tid)"
proof (cases "tid = c_taskId d")
  case False
  then show ?thesis
    by (simp add: processCollected_other)
next
  case True
  show ?thesis
  proof (cases "taskOf s (c_taskId d)")
    case None
    with True show ?thesis
      by (simp add: processCollected_present)
  next
    case (Some t)
    from processCollected_outcome [OF this, of E] True Some show ?thesis
      by simp
  qed
qed

lemma taskOf_initialState:
  "taskOf (initialState E) tid = List.find (\<lambda>t. task_id t = tid) (initialTasks E)"
  by (simp add: taskOf_def initialState_def)

section \<open>Example runs\<close>

text \<open>What the example environment answers, whatever its list of categories.\<close>

lemma ex_env_categories [simp]: "NEWS_CATEGORIES (ex_env cats) = map ex_category cats"
  by (simp add: ex_env_def)

lemma ex_category_fields [simp]:
  "apiValue (ex_category v) = v" "cat_name (ex_category v) = v"
  by (simp_all add: ex_category_def)

lemma ex_links [simp]:
  "link ex_art1 = ''https://news.example/1''" "link ex_art2 = ''https://news.example/2''"
  "link ex_art3 = ''https://news.example/3''"
  by (simp_all add: ex_art1_def ex_art2_def ex_art3_def)

lemma ex_collected_fields [simp]:
  "c_taskId (ex_collected tid a) = tid" "c_article (ex_collected tid a) = a"
  "c_analysis (ex_collected tid a) = ex_analysis"
  by (simp_all add: ex_collected_def)

lemma ex_gather_science:
  "gatherAttempt (ex_env cats) s (ex_category ''science'') = Inl (Error ''Network down'')"
  by (simp add: gatherAttempt_def ex_env_def)

lemma ex_gather_world:
  "''https://news.example/3'' \<notin> usedArticleLinks s \<Longrightarrow>
   gatherAttempt (ex_env cats) s (ex_category ''world'') =
     Inl (Error ''Could not find a relevant, unused Bangladesh-specific article for world.'')"
  by (simp add: gatherAttempt_def ex_env_def findAndAnalyzeBestArticleFromList_def
      ex_toUpperCase_def)

lemma ex_gather_first:
  "v \<noteq> ''science'' \<Longrightarrow> v \<noteq> ''world'' \<Longrightarrow> ''https://news.example/1'' \<notin> usedArticleLinks s \<Longrightarrow>
   gatherAttempt (ex_env cats) s (ex_category v) = Inr (ex_analysis, ex_art1)"
  by (simp add: gatherAttempt_def ex_env_def findAndAnalyzeBestArticleFromList_def
      ex_toUpperCase_def ex_art1_def ex_art2_def ex_art3_def)

lemma ex_gather_second:
  "v \<noteq> ''science'' \<Longrightarrow> v \<noteq> ''world'' \<Longrightarrow> ''https://news.example/1'' \<in> usedArticleLinks s \<Longrightarrow>
   ''https://news.example/2'' \<notin> usedArticleLinks s \<Longrightarrow>
   gatherAttempt (ex_env cats) s (ex_category v) = Inr (ex_analysis, ex_art2)"
  by (simp add: gatherAttempt_def ex_env_def findAndAnalyzeBestArticleFromList_def
      ex_toUpperCase_def ex_art1_def ex_art2_def ex_art3_def)

lemma ex_load_broken:
  "loadImage (ex_env cats) ''https://img.example/broken.jpg'' = Inl (Error ''HTTP 404'')"
  by (simp add: loadImage_def startsWith_def ex_env_def)

lemma ex_process_art1:
  "processAttempt (ex_env cats) (ex_collected tid ex_art1) = Inl (Error ''HTTP 404'')"
  by (simp add: processAttempt_def deliverAttempt_def noImageUrl_def composeImage_def
      ex_load_broken ex_art1_def)

lemma ex_process_art2:
  "processAttempt (ex_env cats) (ex_collected tid ex_art2) = Inr ex_result"
  by (simp add: processAttempt_def deliverAttempt_def noImageUrl_def composeImage_def
      loadImage_def startsWith_def ex_env_def ex_art2_def ex_analysis_def ex_result_def)

lemma ex_initial_used [simp]: "usedArticleLinks (initialState E) = {}"
  by (simp add: initialState_def)

lemma ex_initial_collected [simp]: "collectedData (initialState E) = []"
  by (simp add: initialState_def)

lemmas ex_outcome_simps =
  handler_def phase1_def phase2_def gatherCategory_task gatherCategory_used
  gatherCategory_collected processCollected_task ex_gather_science ex_gather_world
  ex_gather_first ex_gather_second ex_process_art1 ex_process_art2 taskOf_initialState
  initialTasks_def

lemma ex_run_four:
  "map (\<lambda>tid. map_option (\<lambda>t. (status t, error t, result t))
         (taskOf (handler (ex_env [''science'', ''world'', ''business'', ''sports''])) tid))
     [''science'', ''world'', ''business'', ''sports''] =
   [Some (ERROR, Some ''Network down'', None),
    Some (ERROR,
      Some ''Could not find a relevant, unused Bangladesh-specific article for world.'', None),
    Some (ERROR, Some ''HTTP 404'', None),
    Some (DONE, None, Some ex_result)]"
  by (simp add: ex_outcome_simps ex_collected_def [symmetric])

lemma gatherCategory_streamed:
  "streamedStatuses (gatherCategory E s c) tid =
     streamedStatuses s tid @
       (if tid = apiValue c \<and> taskOf s tid \<noteq> None
        then [GATHERING, (case gatherAttempt E s c of Inl err \<Rightarrow> ERROR | Inr found \<Rightarrow> GATHERED)]
        else [])"
  by (cases "taskOf s (apiValue c)")
    (auto simp: gatherCategory_attempt streamedStatuses_taskFailed streamedStatuses_updateTask
      taskOf_updateTask split: sum.splits)

lemma streamedStatuses_initialState:
  "streamedStatuses (initialState E) tid =
     map status (filter (\<lambda>t. task_id t = tid) (initialTasks E))"
  by (simp add: streamedStatuses_def initialState_def)

section \<open>The used links\<close>

text \<open>
  Claim C7.  In both orchestrators the step of a category, entered in any state, collects
  at most one article; the link of a collected article was not in the set of used links
  when the step began (the analysis only sees the articles whose links are not in the
  set, and it returns one of those), and the step adds exactly that link to the set.  So
  the set only grows over the categories of phase 1, and in a run, which starts with the
  empty set, no two collected articles have the same link and the set is the set of the
  links of the collected articles.
\<close>

theorem used_links_exclusive:
  "(\<exists>new. collectedData (gatherCategory E s c) = collectedData s @ new \<and>
          length new \<le> 1 \<and>
          (\<forall>d \<in> set new. c_taskId d = apiValue c \<and> link (c_article d) \<notin> usedArticleLinks s) \<and>
          usedArticleLinks (gatherCategory E s c) =
            usedArticleLinks s \<union> set (map (\<lambda>d. link (c_article d)) new)) \<and>
   usedArticleLinks s \<subseteq> usedArticleLinks (foldl (gatherCategory E) s cats) \<and>
   distinct (map (\<lambda>d. link (c_article d)) (collectedData (phase1 E (initialState E)))) \<and>
   usedArticleLinks (phase1 E (initialState E)) =
     set (map (\<lambda>d. link (c_article d)) (collectedData (phase1 E (initialState E)))) \<and>
   (\<exists>new. app_collectedData (gatherCategory_app E a c) = app_collectedData a @ new \<and>
          length new \<le> 1 \<and>
          (\<forall>d \<in> set new. c_taskId d = apiValue c \<and>
             link (c_article d) \<notin> app_usedArticleLinks a) \<and>
          app_usedArticleLinks (gatherCategory_app E a c) =
            app_usedArticleLinks a \<union> set (map (\<lambda>d. link (c_article d)) new)) \<and>
   app_usedArticleLinks a \<subseteq> app_usedArticleLinks (foldl (gatherCategory_app E) a cats) \<and>
   distinct (map (\<lambda>d. link (c_article d))
     (app_collectedData (phase1_app E (initialState_app E)))) \<and>
   app_usedArticleLinks (phase1_app E (initialState_app E)) =
     set (map (\<lambda>d. link (c_article d)) (app_collectedData (phase1_app E (initialState_app E))))"
proof -
  have 1: "\<exists>new. collectedData (gatherCategory E s c) = collectedData s @ new \<and>
      length new \<le> 1 \<and>
      (\<forall>d \<in> set new. c_taskId d = apiValue c \<and> link (c_article d) \<notin> usedArticleLinks s) \<and>
      usedArticleLinks (gatherCategory E s c) =
        usedArticleLinks s \<union> set (map (\<lambda>d. link (c_article d)) new)"
    using gatherCategory_links [of E s c]
  proof (elim disjE exE conjE)
    assume "collectedData (gatherCategory E s c) = collectedData s"
      "usedArticleLinks (gatherCategory E s c) = usedArticleLinks s"
    then show ?thesis
      by (intro exI [of _ "[]"]) simp
  next
    fix d
    assume "collectedData (gatherCategory E s c) = collectedData s @ [d]"
      "c_taskId d = apiValue c" "link (c_article d) \<notin> usedArticleLinks s"
      "usedArticleLinks (gatherCategory E s c) = insert (link (c_article d)) (usedArticleLinks s)"
    then show ?thesis
      by (intro exI [of _ "[d]"]) simp
  qed
  have 2: "usedArticleLinks s \<subseteq> usedArticleLinks (foldl (gatherCategory E) s cats)"
    using phase1_links [of E s cats] by auto
  from phase1_links [of E "initialState E" "NEWS_CATEGORIES E"]
  have 3: "distinct (map (\<lambda>d. link (c_article d)) (collectedData (phase1 E (initialState E))))"
    and 4: "usedArticleLinks (phase1 E (initialState E)) =
      set (map (\<lambda>d. link (c_article d)) (collectedData (phase1 E (initialState E))))"
    by (auto simp: phase1_def initialState_def)
  have 5: "\<exists>new. app_collectedData (gatherCategory_app E a c) = app_collectedData a @ new \<and>
      length new \<le> 1 \<and>
      (\<forall>d \<in> set new. c_taskId d = apiValue c \<and> link (c_article d) \<notin> app_usedArticleLinks a) \<and>
      app_usedArticleLinks (gatherCategory_app E a c) =
        app_usedArticleLinks a \<union> set (map (\<lambda>d. link (c_article d)) new)"
    using gatherCategory_app_links [of E a c]
  proof (elim disjE exE conjE)
    assume "app_collectedData (gatherCategory_app E a c) = app_collectedData a"
      "app_usedArticleLinks (gatherCategory_app E a c) = app_usedArticleLinks a"
    then show ?thesis
      by (intro exI [of _ "[]"]) simp
  next
    fix d
    assume "app_collectedData (gatherCategory_app E a c) = app_collectedData a @ [d]"
      "c_taskId d = apiValue c" "link (c_article d) \<notin> app_usedArticleLinks a"
      "app_usedArticleLinks (gatherCategory_app E a c) =
         insert (link (c_article d)) (app_usedArticleLinks a)"
    then show ?thesis
      by (intro exI [of _ "[d]"]) simp
  qed
  have 6: "app_usedArticleLinks a \<subseteq> app_usedArticleLinks (foldl (gatherCategory_app E) a cats)"
    using phase1_app_links [of E a cats] by auto
  from phase1_app_links [of E "initialState_app E" "NEWS_CATEGORIES E"]
  have 7: "distinct (map (\<lambda>d. link (c_article d))
      (app_collectedData (phase1_app E (initialState_app E))))"
    and 8: "app_usedArticleLinks (phase1_app E (initialState_app E)) =
      set (map (\<lambda>d. link (c_article d)) (app_collectedData (phase1_app E (initialState_app E))))"
    by (auto simp: phase1_app_def initialState_app_def)
  from 1 2 3 4 5 6 7 8 show ?thesis
    by blast
qed

lemma ex_phase1_two:
  "collectedData (phase1 (ex_env [''business'', ''sports''])
      (initialState (ex_env [''business'', ''sports'']))) =
     [ex_collected ''business'' ex_art1, ex_collected ''sports'' ex_art2]"
  by (simp add: ex_outcome_simps ex_collected_def [symmetric])

lemma ex_phase1_first:
  "collectedData (gatherCategory (ex_env cats) (initialState (ex_env cats))
      (ex_category ''business'')) = [ex_collected ''business'' ex_art1]"
  "usedArticleLinks (gatherCategory (ex_env cats) (initialState (ex_env cats))
      (ex_category ''business'')) = {''https://news.example/1''}"
  by (simp_all add: ex_outcome_simps ex_collected_def [symmetric])

lemma ex_phase1_app_two:
  "app_collectedData (phase1_app (ex_env [''business'', ''sports''])
      (initialState_app (ex_env [''business'', ''sports'']))) =
     [ex_collected ''business'' ex_art1, ex_collected ''sports'' ex_art2]"
  by (simp add: phase1_app_def initialState_app_def gatherCategory_app_def gatherArticles_def
      updateTask_app_def taskFailed_app_def findAndAnalyzeBestArticleFromList_def
      ex_toUpperCase_def ex_env_def ex_category_def ex_art1_def ex_art2_def ex_art3_def
      ex_collected_def Let_def)

text \<open>
  Two categories that are offered the same two articles, and a model that always
  chooses the first article it is shown: the second category is shown the second
  article only, and collects it.
\<close>

theorem used_links_exclusive_witness:
  "collectedData (phase1 (ex_env [''business'', ''sports''])
      (initialState (ex_env [''business'', ''sports'']))) =
     [ex_collected ''business'' ex_art1, ex_collected ''sports'' ex_art2] \<and>
   usedArticleLinks (phase1 (ex_env [''business'', ''sports''])
      (initialState (ex_env [''business'', ''sports'']))) =
     {''https://news.example/1'', ''https://news.example/2''} \<and>
   collectedData (gatherCategory (ex_env [''business'', ''sports''])
      (gatherCategory (ex_env [''business'', ''sports''])
         (initialState (ex_env [''business'', ''sports''])) (ex_category ''business''))
      (ex_category ''sports'')) =
     [ex_collected ''business'' ex_art1] @ [ex_collected ''sports'' ex_art2] \<and>
   link (c_article (ex_collected ''sports'' ex_art2)) \<notin>
     usedArticleLinks (gatherCategory (ex_env [''business'', ''sports''])
       (initialState (ex_env [''business'', ''sports''])) (ex_category ''business'')) \<and>
   app_collectedData (phase1_app (ex_env [''business'', ''sports''])
      (initialState_app (ex_env [''business'', ''sports'']))) =
     [ex_collected ''business'' ex_art1, ex_collected ''sports'' ex_art2] \<and>
   app_usedArticleLinks (phase1_app (ex_env [''business'', ''sports''])
      (initialState_app (ex_env [''business'', ''sports'']))) =
     {''https://news.example/1'', ''https://news.example/2''}"
proof -
  define E where "E = ex_env [''business'', ''sports'']"
  define s1 where "s1 = gatherCategory E (initialState E) (ex_category ''business'')"
  have first: "collectedData s1 = [ex_collected ''business'' ex_art1]"
    "usedArticleLinks s1 = {''https://news.example/1''}"
    by (simp_all add: s1_def E_def ex_phase1_first)
  have run: "collectedData (phase1 E (initialState E)) =
      [ex_collected ''business'' ex_art1, ex_collected ''sports'' ex_art2]"
    by (simp add: E_def ex_phase1_two)
  have run_app: "app_collectedData (phase1_app E (initialState_app E)) =
      [ex_collected ''business'' ex_art1, ex_collected ''sports'' ex_art2]"
    by (simp add: E_def ex_phase1_app_two)
  have second: "gatherCategory E s1 (ex_category ''sports'') = phase1 E (initialState E)"
    by (simp add: phase1_def E_def s1_def)
  from used_links_exclusive [of E s1 "ex_category ''sports''" "[]" ex_app]
  obtain new where new:
    "collectedData (gatherCategory E s1 (ex_category ''sports'')) = collectedData s1 @ new"
    "\<forall>d \<in> set new. c_taskId d = apiValue (ex_category ''sports'') \<and>
       link (c_article d) \<notin> usedArticleLinks s1"
    and used: "usedArticleLinks (phase1 E (initialState E)) =
      set (map (\<lambda>d. link (c_article d)) (collectedData (phase1 E (initialState E))))"
    and used_app: "app_usedArticleLinks (phase1_app E (initialState_app E)) =
      set (map (\<lambda>d. link (c_article d)) (app_collectedData (phase1_app E (initialState_app E))))"
    by blast
  from new(1) have "new = [ex_collected ''sports'' ex_art2]"
    by (simp add: second run first)
  with new(2) have fresh: "link (c_article (ex_collected ''sports'' ex_art2)) \<notin> usedArticleLinks s1"
    by simp
  from new(1) \<open>new = [ex_collected ''sports'' ex_art2]\<close>
  have step: "collectedData (gatherCategory E s1 (ex_category ''sports'')) =
      [ex_collected ''business'' ex_art1] @ [ex_collected ''sports'' ex_art2]"
    by (simp add: first)
  from used have u: "usedArticleLinks (phase1 E (initialState E)) =
      {''https://news.example/1'', ''https://news.example/2''}"
    by (simp add: run)
  from used_app have ua: "app_usedArticleLinks (phase1_app E (initialState_app E)) =
      {''https://news.example/1'', ''https://news.example/2''}"
    by (simp add: run_app)
  from run u step fresh run_app ua show ?thesis
    unfolding E_def s1_def by blast
qed

section \<open>An article image that does not load\<close>

lemma generator_unused:
  "loadImage (E\<lparr>generateImageFromPrompt := g\<rparr>) src = loadImage E src"
  "composeImage (E\<lparr>generateImageFromPrompt := g\<rparr>) src h p = composeImage E src h p"
  "composeAndDeliver (E\<lparr>generateImageFromPrompt := g\<rparr>) d src s = composeAndDeliver E d src s"
proof -
  show l: "loadImage (E\<lparr>generateImageFromPrompt := g\<rparr>) src = loadImage E src" for src
    by (simp add: loadImage_def split: list.splits)
  show c: "composeImage (E\<lparr>generateImageFromPrompt := g\<rparr>) src h p = composeImage E src h p"
    for src h p
    by (simp add: composeImage_def l split: sum.splits)
  show "composeAndDeliver (E\<lparr>generateImageFromPrompt := g\<rparr>) d src s = composeAndDeliver E d src s"
    by (simp add: composeAndDeliver_def c Let_def split: sum.splits)
qed

text \<open>
  Claim C8.  In the server orchestrator the inner \<^verbatim>\<open>try\<close> of phase 2 only tests whether the
  article names an image; the image is loaded later, inside \<^verbatim>\<open>composeImage\<close>, after the
  status \<^verbatim>\<open>COMPOSING\<close>.  So when the article names an image that does not load, the task
  streams \<^verbatim>\<open>PROCESSING\<close>, \<^verbatim>\<open>COMPOSING\<close> and \<^verbatim>\<open>ERROR\<close>, ends with the message of the failed load,
  is never in the status \<^verbatim>\<open>GENERATING_IMAGE\<close>, and the image generator is not consulted: the
  step is the same whatever the generator would answer.  The in-browser orchestrator
  loads the image inside the inner \<^verbatim>\<open>try\<close>, and with the same article and the same failed
  load it sets \<^verbatim>\<open>GENERATING_IMAGE\<close> right after \<^verbatim>\<open>PROCESSING\<close>.
\<close>

theorem article_image_failure:
  assumes "image_url (c_article d) = Some url" and "url \<noteq> []"
    and "loadImage E url = Inl err"
    and "taskOf s (c_taskId d) = Some t"
  shows "streamedStatuses (processCollected E s d) (c_taskId d) =
           streamedStatuses s (c_taskId d) @ [PROCESSING, COMPOSING, ERROR] \<and>
         taskOf (processCollected E s d) (c_taskId d) =
           Some (t\<lparr>status := ERROR, error := Some (errorMessage err)\<rparr>) \<and>
         processCollected (E\<lparr>generateImageFromPrompt := g\<rparr>) s d = processCollected E s d \<and>
         (\<exists>tail. calledStatuses (processCollected_app E a d) (c_taskId d) =
            calledStatuses a (c_taskId d) @ PROCESSING # GENERATING_IMAGE # tail)"
proof -
  from assms(1,2) have img: "\<not> noImageUrl (c_article d)" "the (image_url (c_article d)) = url"
    by (simp_all add: noImageUrl_def)
  from assms(3) have compose:
    "composeImage E url (a_headline (c_analysis d)) (a_highlightPhrases (c_analysis d)) = Inl err"
    by (simp add: composeImage_def)
  have step: "processCollected E s d =
      taskFailed (c_taskId d) err
        (updateTask (c_taskId d) (statusUpdate COMPOSING)
          (updateTask (c_taskId d) (statusUpdate PROCESSING) s))"
    using img compose by (simp add: processCollected_unfold composeAndDeliver_def Let_def)
  have 1: "streamedStatuses (processCollected E s d) (c_taskId d) =
      streamedStatuses s (c_taskId d) @ [PROCESSING, COMPOSING, ERROR]"
    using assms(4)
    by (simp add: step streamedStatuses_taskFailed streamedStatuses_updateTask taskOf_updateTask)
  from compose img have "processAttempt E d = Inl err"
    by (simp add: processAttempt_def deliverAttempt_def)
  with processCollected_outcome [OF assms(4), of E]
  have 2: "taskOf (processCollected E s d) (c_taskId d) =
      Some (t\<lparr>status := ERROR, error := Some (errorMessage err)\<rparr>)"
    by simp
  have 3: "processCollected (E\<lparr>generateImageFromPrompt := g\<rparr>) s d = processCollected E s d"
    using img by (simp add: processCollected_unfold generator_unused)
  from assms(1,3) have "loadArticleImage E (c_article d) = Inl err"
    by (simp add: loadArticleImage_def)
  with processCollected_app_statuses [of E d a]
  have 4: "\<exists>tail. calledStatuses (processCollected_app E a d) (c_taskId d) =
      calledStatuses a (c_taskId d) @ PROCESSING # GENERATING_IMAGE # tail"
    by auto
  from 1 2 3 4 show ?thesis
    by blast
qed

lemma ex_phase1_one:
  "collectedData (phase1 (ex_env [''business'']) (initialState (ex_env [''business'']))) =
     [ex_collected ''business'' ex_art1]"
  "streamedStatuses (phase1 (ex_env [''business'']) (initialState (ex_env [''business''])))
     ''business'' = [PENDING, GATHERING, GATHERED]"
  "taskOf (phase1 (ex_env [''business'']) (initialState (ex_env [''business''])))
     ''business'' =
     Some \<lparr>task_id = ''business'', categoryName = ''business'', status = GATHERED,
           error = None, result = None\<rparr>"
  by (simp_all add: ex_outcome_simps gatherCategory_streamed streamedStatuses_initialState
      ex_collected_def [symmetric])

text \<open>
  A run of the server orchestrator over one category.  The article collected names an
  image that answers with HTTP 404, and the image generator of the example would have
  answered with an image.
\<close>

theorem article_image_failure_witness:
  "image_url (c_article (ex_collected ''business'' ex_art1)) =
     Some ''https://img.example/broken.jpg'' \<and>
   loadImage (ex_env [''business'']) ''https://img.example/broken.jpg'' =
     Inl (Error ''HTTP 404'') \<and>
   generateImageFromPrompt (ex_env [''business'']) (a_imagePrompt ex_analysis) =
     Inr ''data:image/png;base64,AAAA'' \<and>
   streamedStatuses (handler (ex_env [''business''])) ''business'' =
     [PENDING, GATHERING, GATHERED, PROCESSING, COMPOSING, ERROR] \<and>
   GENERATING_IMAGE \<notin> set (streamedStatuses (handler (ex_env [''business''])) ''business'') \<and>
   taskOf (handler (ex_env [''business''])) ''business'' =
     Some \<lparr>task_id = ''business'', categoryName = ''business'', status = ERROR,
           error = Some ''HTTP 404'', result = None\<rparr> \<and>
   GENERATING_IMAGE \<in> set (calledStatuses
     (processCollected_app (ex_env [''business'']) ex_app (ex_collected ''business'' ex_art1))
     ''business'')"
proof -
  define E where "E = ex_env [''business'']"
  define s1 where "s1 = phase1 E (initialState E)"
  define d where "d = ex_collected ''business'' ex_art1"
  have url: "image_url (c_article d) = Some ''https://img.example/broken.jpg''"
    by (simp add: d_def ex_art1_def)
  have load: "loadImage E ''https://img.example/broken.jpg'' = Inl (Error ''HTTP 404'')"
    by (simp add: E_def ex_load_broken)
  have gen: "generateImageFromPrompt E (a_imagePrompt ex_analysis) = Inr ''data:image/png;base64,AAAA''"
    by (simp add: E_def ex_env_def)
  have p1: "collectedData s1 = [d]" "streamedStatuses s1 ''business'' = [PENDING, GATHERING, GATHERED]"
    "taskOf s1 (c_taskId d) =
       Some \<lparr>task_id = ''business'', categoryName = ''business'', status = GATHERED,
             error = None, result = None\<rparr>"
    by (simp_all add: s1_def E_def d_def ex_phase1_one)
  have run: "handler E = processCollected E s1 d"
    by (simp add: handler_def phase2_def s1_def [symmetric] p1(1))
  from article_image_failure [OF url _ load p1(3), where a = ex_app]
  have r: "streamedStatuses (processCollected E s1 d) (c_taskId d) =
      streamedStatuses s1 (c_taskId d) @ [PROCESSING, COMPOSING, ERROR]"
    "taskOf (processCollected E s1 d) (c_taskId d) =
      Some (\<lparr>task_id = ''business'', categoryName = ''business'', status = GATHERED,
             error = None, result = None\<rparr>
            \<lparr>status := ERROR, error := Some (errorMessage (Error ''HTTP 404''))\<rparr>)"
    "\<exists>tail. calledStatuses (processCollected_app E ex_app d) (c_taskId d) =
       calledStatuses ex_app (c_taskId d) @ PROCESSING # GENERATING_IMAGE # tail"
    by simp_all
  have tid: "c_taskId d = ''business''"
    by (simp add: d_def)
  from r(1) have a: "streamedStatuses (handler E) ''business'' =
      [PENDING, GATHERING, GATHERED, PROCESSING, COMPOSING, ERROR]"
    by (simp add: run tid p1(2))
  from r(2) have b: "taskOf (handler E) ''business'' =
      Some \<lparr>task_id = ''business'', categoryName = ''business'', status = ERROR,
            error = Some ''HTTP 404'', result = None\<rparr>"
    by (simp add: run tid)
  from r(3) have c: "GENERATING_IMAGE \<in> set (calledStatuses (processCollected_app E ex_app d) ''business'')"
    by (auto simp: tid)
  from url load gen a b c show ?thesis
    unfolding E_def d_def by simp
qed

section \<open>Failures stay with their category\<close>

text \<open>
  Claim C9.  The run of the server orchestrator is a function of the environment: every
  exception of a collaborator is a value that the \<^verbatim>\<open>catch\<close> block of the category takes, and
  nothing leaves the two loops, as long as the response stream takes the records.  For
  every category of the list: its gathering is started, whatever happened to the
  categories before it; if it was collected, its processing is started; and at the end
  its task is \<^verbatim>\<open>DONE\<close> with a result or \<^verbatim>\<open>ERROR\<close> with a message.  In either phase the step of a
  category writes its own task only, and what it leaves there is decided by the \<^verbatim>\<open>try\<close>
  block alone: \<^verbatim>\<open>ERROR\<close> with the message of the exception when the block threw, and the
  status of success otherwise.  An analysis that returns \<^verbatim>\<open>null\<close> is one of the exceptions
  of phase 1.
\<close>

theorem failure_isolation:
  assumes "c \<in> set (NEWS_CATEGORIES E)"
  shows "GATHERING \<in> set (streamedStatuses (handler E) (apiValue c)) \<and>
     (apiValue c \<in> set (map c_taskId (collectedData (phase1 E (initialState E)))) \<longrightarrow>
        PROCESSING \<in> set (streamedStatuses (handler E) (apiValue c))) \<and>
     (\<exists>t. taskOf (handler E) (apiValue c) = Some t \<and>
          (status t = DONE \<and> result t \<noteq> None \<or> status t = ERROR \<and> error t \<noteq> None)) \<and>
     (\<forall>s t. taskOf s (apiValue c) = Some t \<longrightarrow>
        taskOf (gatherCategory E s c) (apiValue c) =
          Some (case gatherAttempt E s c of
                  Inl err \<Rightarrow> t\<lparr>status := ERROR, error := Some (errorMessage err)\<rparr>
                | Inr found \<Rightarrow> t\<lparr>status := GATHERED\<rparr>)) \<and>
     (\<forall>s tid. tid \<noteq> apiValue c \<longrightarrow> taskOf (gatherCategory E s c) tid = taskOf s tid) \<and>
     (\<forall>s allArticles.
        fetchLatestBangladeshiNews E (apiValue c) = Inr allArticles \<and>
        filter (\<lambda>article. link article \<notin> usedArticleLinks s) allArticles \<noteq> [] \<and>
        findAndAnalyzeBestArticleFromList E
          (filter (\<lambda>article. link article \<notin> usedArticleLinks s) allArticles) = Inr None \<longrightarrow>
        gatherAttempt E s c =
          Inl (Error (''Could not find a relevant, unused Bangladesh-specific article for ''
                      @ cat_name c @ ''.''))) \<and>
     (\<forall>s d t. taskOf s (c_taskId d) = Some t \<longrightarrow>
        taskOf (processCollected E s d) (c_taskId d) =
          Some (case processAttempt E d of
                  Inl err \<Rightarrow> t\<lparr>status := ERROR, error := Some (errorMessage err)\<rparr>
                | Inr r \<Rightarrow> t\<lparr>status := DONE, result := Some r\<rparr>)) \<and>
     (\<forall>s d tid. tid \<noteq> c_taskId d \<longrightarrow> taskOf (processCollected E s d) tid = taskOf s tid)"
proof -
  define tid where "tid = apiValue c"
  define s1 where "s1 = phase1 E (initialState E)"
  have mem: "tid \<in> set (map apiValue (NEWS_CATEGORIES E))"
    using assms by (simp add: tid_def)
  have p0: "taskOf (initialState E) tid \<noteq> None"
    using initial_present [OF assms] by (simp add: tid_def)
  then have p1: "taskOf s1 tid \<noteq> None"
    by (simp add: s1_def phase1_def phase1_present)
  from handler_every_category [OF assms]
  have 1: "GATHERING \<in> set (streamedStatuses (handler E) tid)"
    and 3: "\<exists>t. taskOf (handler E) tid = Some t \<and>
      (status t = DONE \<and> result t \<noteq> None \<or> status t = ERROR \<and> error t \<noteq> None)"
    unfolding tid_def by blast+
  have 2: "PROCESSING \<in> set (streamedStatuses (handler E) tid)"
    if "tid \<in> set (map c_taskId (collectedData s1))"
  proof -
    from phase2_processing [of E s1 "collectedData s1" tid] that p1 show ?thesis
      unfolding handler_def phase2_def s1_def by auto
  qed
  have 4: "taskOf (gatherCategory E s c) (apiValue c) =
      Some (case gatherAttempt E s c of
              Inl err \<Rightarrow> t\<lparr>status := ERROR, error := Some (errorMessage err)\<rparr>
            | Inr found \<Rightarrow> t\<lparr>status := GATHERED\<rparr>)"
    if "taskOf s (apiValue c) = Some t" for s t
    using that by (rule gatherCategory_outcome)
  have 5: "taskOf (gatherCategory E s c) x = taskOf s x" if "x \<noteq> apiValue c" for s x
    using that by (rule gatherCategory_other)
  have 6: "gatherAttempt E s c =
      Inl (Error (''Could not find a relevant, unused Bangladesh-specific article for ''
                  @ cat_name c @ ''.''))"
    if "fetchLatestBangladeshiNews E (apiValue c) = Inr allArticles"
      "filter (\<lambda>article. link article \<notin> usedArticleLinks s) allArticles \<noteq> []"
      "findAndAnalyzeBestArticleFromList E
         (filter (\<lambda>article. link article \<notin> usedArticleLinks s) allArticles) = Inr None"
    for s allArticles
    using that(1,3,2) by (rule gatherAttempt_null)
  have 7: "taskOf (processCollected E s d) (c_taskId d) =
      Some (case processAttempt E d of
              Inl err \<Rightarrow> t\<lparr>status := ERROR, error := Some (errorMessage err)\<rparr>
            | Inr r \<Rightarrow> t\<lparr>status := DONE, result := Some r\<rparr>)"
    if "taskOf s (c_taskId d) = Some t" for s d t
    using that by (rule processCollected_outcome)
  have 8: "taskOf (processCollected E s d) x = taskOf s x" if "x \<noteq> c_taskId d" for s d x
    using that by (rule processCollected_other)
  from 1 2 3 4 5 6 7 8 show ?thesis
    unfolding tid_def s1_def by blast
qed

text \<open>
  A run over four categories.  The fetch of the first fails, the model finds the only
  article of the second irrelevant, the image of the third does not load, and the fourth
  is delivered: three failures, each in its own task, and a run that goes on to the end.
\<close>

theorem failure_isolation_witness:
  "ex_category ''sports'' \<in>
     set (NEWS_CATEGORIES (ex_env [''science'', ''world'', ''business'', ''sports''])) \<and>
   map (\<lambda>tid. map_option (\<lambda>t. (status t, error t, result t))
         (taskOf (handler (ex_env [''science'', ''world'', ''business'', ''sports''])) tid))
     [''science'', ''world'', ''business'', ''sports''] =
   [Some (ERROR, Some ''Network down'', None),
    Some (ERROR,
      Some ''Could not find a relevant, unused Bangladesh-specific article for world.'', None),
    Some (ERROR, Some ''HTTP 404'', None),
    Some (DONE, None, Some ex_result)] \<and>
   GATHERING \<in> set (streamedStatuses
     (handler (ex_env [''science'', ''world'', ''business'', ''sports''])) ''sports'') \<and>
   PROCESSING \<in> set (streamedStatuses
     (handler (ex_env [''science'', ''world'', ''business'', ''sports''])) ''sports'')"
proof -
  define E where "E = ex_env [''science'', ''world'', ''business'', ''sports'']"
  have mem: "ex_category ''sports'' \<in> set (NEWS_CATEGORIES E)"
    by (simp add: E_def)
  have collected: "apiValue (ex_category ''sports'') \<in>
      set (map c_taskId (collectedData (phase1 E (initialState E))))"
    by (simp add: E_def ex_outcome_simps)
  from failure_isolation [OF mem] collected
  have "GATHERING \<in> set (streamedStatuses (handler E) (apiValue (ex_category ''sports'')))"
    "PROCESSING \<in> set (streamedStatuses (handler E) (apiValue (ex_category ''sports'')))"
    by blast+
  with mem ex_run_four show ?thesis
    unfolding E_def by simp
qed

end
